theory Spec2Isabelle
  imports Complex_Main "HOL-Library.Sublist" "HOL-Library.Monad_Syntax"
begin

section \<open>Data model\<close>

text \<open>
  Identifiers (\<open>neuron_id_t\<close>, innovation numbers, species ids) are unsigned integers of
  the source; they are modelled as \<open>nat\<close>. The counters of \<open>distance_to\<close> are
  \<open>unsigned int\<close>; a gene vector never holds more than \<open>2 ^ 32\<close> genes, so they are
  \<open>nat\<close> too. A \<open>double\<close> is idealised as a \<open>real\<close>: rounding is not modelled. The only
  place where the source leaves the finite values is the quotient \<open>0.0 / 0\<close> of
  \<open>distance_to\<close>, which is kept as the value \<open>NaN\<close> of the type \<open>fp\<close>.
\<close>

datatype fp = Fin real | NaN

text \<open>
  Modelled from the spec: the gene structure (its declaration is not among the sources):
  \<open>(innov, from, to, weight, enabled)\<close>. A gene built by its constructor is enabled.
\<close>

record gene =
  innov_num :: nat
  from_id :: nat
  to_id :: nat
  weight :: real
  enabled :: bool

definition mk_gene :: "nat \<Rightarrow> nat \<Rightarrow> nat \<Rightarrow> real \<Rightarrow> gene" where
  "mk_gene i f t w = \<lparr>innov_num = i, from_id = f, to_id = t, weight = w, enabled = True\<rparr>"

text \<open>The fields of \<open>parameters\<close> that the modelled functions read.\<close>

record parameters =
  number_of_inputs :: nat
  number_of_outputs :: nat
  compatibility_threshold :: real
  dynamic_compatibility_threshold :: bool
  distance_coef_c1 :: real
  distance_coef_c2 :: real
  distance_coef_c3 :: real
  mutation_add_link_weight :: nat
  mutation_add_neuron_weight :: nat
  mutation_all_weights_weight :: nat
  mutation_one_weight_weight :: nat
  mutation_reset_weights_weight :: nat
  mutation_remove_gene_weight :: nat
  mutation_reenable_gene_weight :: nat
  mutation_toggle_enable_weight :: nat
  initial_weight_perturbation :: real
  weight_mutation_power :: real

record genome =
  m_number_of_inputs :: nat
  m_number_of_outputs :: nat
  m_genes :: "gene list"
  m_known_neuron_ids :: "nat list"
  m_fitness :: real

section \<open>Genome: construction\<close>

definition BIAS_ID :: nat where
  "BIAS_ID = 0"

text \<open>\<open>genome::genome(neat*)\<close>: bias, then the inputs \<open>1..I\<close>, then the outputs.\<close>

definition genome_new :: "parameters \<Rightarrow> genome" where
  "genome_new p =
     \<lparr>m_number_of_inputs = number_of_inputs p,
      m_number_of_outputs = number_of_outputs p,
      m_genes = [],
      m_known_neuron_ids =
        BIAS_ID # map (\<lambda>i. i + 1) [0..<number_of_inputs p]
          @ map (\<lambda>i. i + 1 + number_of_inputs p) [0..<number_of_outputs p],
      m_fitness = 0\<rparr>"

text \<open>\<open>genome::genome(genome&&)\<close>: every member is taken over, except the fitness.\<close>

definition genome_move :: "genome \<Rightarrow> genome" where
  "genome_move other =
     \<lparr>m_number_of_inputs = m_number_of_inputs other,
      m_number_of_outputs = m_number_of_outputs other,
      m_genes = m_genes other,
      m_known_neuron_ids = m_known_neuron_ids other,
      m_fitness = 0\<rparr>"

text \<open>\<open>genome::add_gene\<close>: unknown end points are appended to the known neurons, the
  gene is appended to the gene list.\<close>

definition add_gene :: "gene \<Rightarrow> genome \<Rightarrow> genome" where
  "add_gene new_gene g =
     (let k1 = (if from_id new_gene \<in> set (m_known_neuron_ids g)
                then m_known_neuron_ids g
                else m_known_neuron_ids g @ [from_id new_gene]);
          k2 = (if to_id new_gene \<in> set k1 then k1 else k1 @ [to_id new_gene])
      in g\<lparr>m_known_neuron_ids := k2, m_genes := m_genes g @ [new_gene]\<rparr>)"

definition link_exists :: "genome \<Rightarrow> nat \<Rightarrow> nat \<Rightarrow> bool" where
  "link_exists g f t = list_ex (\<lambda>x. from_id x = f \<and> to_id x = t) (m_genes g)"

section \<open>Genome: distance\<close>

text \<open>
  The first loop of \<open>distance_to\<close>: both gene lists are walked from the front. The result
  is \<open>(nb_disjoint_genes, nb_matching_genes, sum_weight_difference)\<close> and what is left of
  the two lists when the loop stops.
\<close>

fun distance_walk ::
  "gene list \<Rightarrow> gene list \<Rightarrow> nat \<Rightarrow> nat \<Rightarrow> real \<Rightarrow> nat \<times> nat \<times> real \<times> gene list \<times> gene list"
where
  "distance_walk (a # as) (b # bs) d m s =
     (if innov_num a = innov_num b
      then distance_walk as bs d (m + 1) (s + \<bar>weight a - weight b\<bar>)
      else if innov_num a < innov_num b
      then distance_walk as (b # bs) (d + 1) m s
      else distance_walk (a # as) bs (d + 1) m s)"
| "distance_walk [] bs d m s = (d, m, s, [], bs)"
| "distance_walk as [] d m s = (d, m, s, as, [])"

text \<open>The two trailing loops count what is left of either list as excess genes.\<close>

definition distance_counters :: "gene list \<Rightarrow> gene list \<Rightarrow> nat \<times> nat \<times> nat \<times> real" where
  "distance_counters xs ys =
     (case distance_walk xs ys 0 0 0 of
        (d, m, s, rest1, rest2) \<Rightarrow> (d, length rest1 + length rest2, m, s))"

text \<open>
  \<open>genome::distance_to\<close>. The average weight difference is the quotient of the sum by
  the number of matching genes; with no matching gene both are zero and the quotient
  \<open>0.0 / 0\<close> is not a number, which every later operation propagates.
\<close>

definition distance_to :: "parameters \<Rightarrow> genome \<Rightarrow> genome \<Rightarrow> fp" where
  "distance_to p this other =
     (let larger_size = max (length (m_genes this)) (length (m_genes other))
      in if larger_size \<le> 4 then Fin 0
         else case distance_counters (m_genes this) (m_genes other) of
           (nb_disjoint_genes, nb_excess_genes, nb_matching_genes, sum_weight_difference) \<Rightarrow>
             if nb_matching_genes = 0 then NaN
             else Fin (distance_coef_c1 p * real nb_excess_genes / real larger_size
                       + distance_coef_c2 p * real nb_disjoint_genes / real larger_size
                       + distance_coef_c3 p
                           * (sum_weight_difference / real nb_matching_genes)))"

text \<open>\<open>genome::is_compatible_with\<close>: a comparison with a value that is not a number is
  false.\<close>

definition is_compatible_with :: "parameters \<Rightarrow> genome \<Rightarrow> genome \<Rightarrow> bool" where
  "is_compatible_with p this other =
     (case distance_to p this other of
        NaN \<Rightarrow> False
      | Fin d \<Rightarrow> d < compatibility_threshold p)"


text \<open>
  The classification in the words of the specification, to compare the walk with: a gene
  matches when the other parent has a gene of the same innovation number; it is an
  excess gene when its innovation number lies beyond every innovation number of the other
  parent; a gene that neither matches nor is in excess is disjoint.
\<close>

definition is_matching :: "gene \<Rightarrow> gene list \<Rightarrow> bool" where
  "is_matching x ys = list_ex (\<lambda>y. innov_num y = innov_num x) ys"

definition is_excess :: "gene \<Rightarrow> gene list \<Rightarrow> bool" where
  "is_excess x ys = list_all (\<lambda>y. innov_num y < innov_num x) ys"

definition is_disjoint :: "gene \<Rightarrow> gene list \<Rightarrow> bool" where
  "is_disjoint x ys = (\<not> is_matching x ys \<and> \<not> is_excess x ys)"

definition spec_matching :: "gene list \<Rightarrow> gene list \<Rightarrow> nat" where
  "spec_matching xs ys = length (filter (\<lambda>x. is_matching x ys) xs)"

definition spec_excess :: "gene list \<Rightarrow> gene list \<Rightarrow> nat" where
  "spec_excess xs ys =
     length (filter (\<lambda>x. is_excess x ys) xs) + length (filter (\<lambda>y. is_excess y xs) ys)"

definition spec_disjoint :: "gene list \<Rightarrow> gene list \<Rightarrow> nat" where
  "spec_disjoint xs ys =
     length (filter (\<lambda>x. is_disjoint x ys) xs) + length (filter (\<lambda>y. is_disjoint y xs) ys)"

definition weight_diff :: "gene \<Rightarrow> gene list \<Rightarrow> real" where
  "weight_diff x ys =
     (case find (\<lambda>y. innov_num y = innov_num x) ys of
        None \<Rightarrow> 0
      | Some y \<Rightarrow> \<bar>weight x - weight y\<bar>)"

definition spec_sum_weight_diff :: "gene list \<Rightarrow> gene list \<Rightarrow> real" where
  "spec_sum_weight_diff xs ys = sum_list (map (\<lambda>x. weight_diff x ys) xs)"

text \<open>The distance of the specification: \<open>c1 * excess / N + c2 * disjoint / N + c3 * avg\<close>,
  zero when \<open>N \<le> 4\<close>; the average is a quotient by the number of matching genes.\<close>

definition spec_distance :: "parameters \<Rightarrow> gene list \<Rightarrow> gene list \<Rightarrow> fp" where
  "spec_distance p xs ys =
     (let N = max (length xs) (length ys)
      in if N \<le> 4 then Fin 0
         else if spec_matching xs ys = 0 then NaN
         else Fin (distance_coef_c1 p * real (spec_excess xs ys) / real N
                   + distance_coef_c2 p * real (spec_disjoint xs ys) / real N
                   + distance_coef_c3 p
                       * (spec_sum_weight_diff xs ys / real (spec_matching xs ys))))"

text \<open>Gene lists sorted by innovation number, without duplicates.\<close>

definition innov_sorted :: "gene list \<Rightarrow> bool" where
  "innov_sorted xs = sorted_wrt (<) (map innov_num xs)"

text \<open>The genomes of the specification's scenario, every weight being \<open>w\<close>.\<close>

definition genes_of :: "real \<Rightarrow> nat list \<Rightarrow> gene list" where
  "genes_of w is = map (\<lambda>i. mk_gene i 0 1 w) is"

definition scenario_genome :: "real \<Rightarrow> nat list \<Rightarrow> genome" where
  "scenario_genome w is =
     \<lparr>m_number_of_inputs = 1, m_number_of_outputs = 1, m_genes = genes_of w is,
      m_known_neuron_ids = [0, 1, 2], m_fitness = 0\<rparr>"

definition unit_params :: parameters where
  "unit_params =
     \<lparr>number_of_inputs = 1, number_of_outputs = 1, compatibility_threshold = 3,
      dynamic_compatibility_threshold = False,
      distance_coef_c1 = 1, distance_coef_c2 = 1, distance_coef_c3 = 1,
      mutation_add_link_weight = 0, mutation_add_neuron_weight = 0,
      mutation_all_weights_weight = 0, mutation_one_weight_weight = 0,
      mutation_reset_weights_weight = 0, mutation_remove_gene_weight = 1,
      mutation_reenable_gene_weight = 0, mutation_toggle_enable_weight = 0,
      initial_weight_perturbation = 1, weight_mutation_power = 1\<rparr>"

section \<open>Random generators\<close>

text \<open>
  The engines and distributions of the standard library are not part of the repository.
  An engine is modelled by the sequence of outcomes it is going to deliver and a cursor:
  every draw reads the outcome at the cursor, brings it into the range of the distribution
  and advances the cursor. Quantifying over all engines covers every sequence of draws that
  lie in range. A distribution over \<open>lo .. hi\<close> needs \<open>lo \<le> hi\<close>; the functions below
  check for the empty range before they draw, as the source does, or return \<open>None\<close>.
\<close>

record engine =
  ints :: "nat \<Rightarrow> nat"
  reals :: "nat \<Rightarrow> real"
  pos :: nat

definition uniform_int :: "nat \<Rightarrow> nat \<Rightarrow> engine \<Rightarrow> nat \<times> engine" where
  "uniform_int lo hi e = (lo + ints e (pos e) mod (hi - lo + 1), e\<lparr>pos := pos e + 1\<rparr>)"

definition uniform_real :: "real \<Rightarrow> real \<Rightarrow> engine \<Rightarrow> real \<times> engine" where
  "uniform_real a b e = (max a (min b (reals e (pos e))), e\<lparr>pos := pos e + 1\<rparr>)"

text \<open>\<open>std::shuffle\<close>: some permutation, chosen by the generator. Every element is
  inserted at a drawn position among the elements shuffled before it.\<close>

fun shuffle :: "nat list \<Rightarrow> engine \<Rightarrow> nat list \<times> engine" where
  "shuffle [] e = ([], e)"
| "shuffle (x # xs) e =
     (case shuffle xs e of (rest, e1) \<Rightarrow>
        (case uniform_int 0 (length rest) e1 of (i, e2) \<Rightarrow>
           (take i rest @ x # drop i rest, e2)))"

section \<open>Innovation pool\<close>

datatype innov_type = NEW_LINK | NEW_NEURON

text \<open>
  Modelled from the spec: the innovation record and the innovation pool (\<open>innovation.h\<close>
  and its implementation are not among the sources). The pool carries the next innovation
  number, the next hidden neuron id, a registry of canonical genes keyed by \<open>(from, to)\<close>
  and a registry of innovations keyed by \<open>(kind, from, to)\<close>; in both registries the
  first write wins.
\<close>

record innovation =
  i_type :: innov_type
  i_innov_num :: nat
  i_innov_num_2 :: nat
  i_from :: nat
  i_to :: nat
  i_new_neuron_id :: nat

definition new_link_innovation :: "nat \<Rightarrow> nat \<Rightarrow> nat \<Rightarrow> innovation" where
  "new_link_innovation i f t =
     \<lparr>i_type = NEW_LINK, i_innov_num = i, i_innov_num_2 = 0, i_from = f, i_to = t,
      i_new_neuron_id = 0\<rparr>"

definition new_neuron_innovation :: "nat \<Rightarrow> nat \<Rightarrow> nat \<Rightarrow> nat \<Rightarrow> nat \<Rightarrow> innovation" where
  "new_neuron_innovation i1 i2 f t h =
     \<lparr>i_type = NEW_NEURON, i_innov_num = i1, i_innov_num_2 = i2, i_from = f, i_to = t,
      i_new_neuron_id = h\<rparr>"

record innovation_pool =
  m_next_innovation :: nat
  m_next_hidden_neuron_id :: nat
  m_all_genes :: "gene list"
  m_all_innovations :: "innovation list"

definition next_innovation :: "innovation_pool \<Rightarrow> nat \<times> innovation_pool" where
  "next_innovation p = (m_next_innovation p, p\<lparr>m_next_innovation := m_next_innovation p + 1\<rparr>)"

definition next_hidden_neuron_id :: "innovation_pool \<Rightarrow> nat \<times> innovation_pool" where
  "next_hidden_neuron_id p =
     (m_next_hidden_neuron_id p, p\<lparr>m_next_hidden_neuron_id := m_next_hidden_neuron_id p + 1\<rparr>)"

definition find_gene :: "innovation_pool \<Rightarrow> nat \<Rightarrow> nat \<Rightarrow> gene option" where
  "find_gene p f t = find (\<lambda>x. from_id x = f \<and> to_id x = t) (m_all_genes p)"

definition register_gene :: "gene \<Rightarrow> innovation_pool \<Rightarrow> innovation_pool" where
  "register_gene new_gene p =
     (case find_gene p (from_id new_gene) (to_id new_gene) of
        Some _ \<Rightarrow> p
      | None \<Rightarrow> p\<lparr>m_all_genes := m_all_genes p @ [new_gene]\<rparr>)"

definition find_innovation ::
  "innovation_pool \<Rightarrow> innov_type \<Rightarrow> nat \<Rightarrow> nat \<Rightarrow> innovation option" where
  "find_innovation p k f t =
     find (\<lambda>x. i_type x = k \<and> i_from x = f \<and> i_to x = t) (m_all_innovations p)"

definition register_innovation :: "innovation \<Rightarrow> innovation_pool \<Rightarrow> innovation_pool" where
  "register_innovation new_innov p =
     (case find_innovation p (i_type new_innov) (i_from new_innov) (i_to new_innov) of
        Some _ \<Rightarrow> p
      | None \<Rightarrow> p\<lparr>m_all_innovations := m_all_innovations p @ [new_innov]\<rparr>)"

text \<open>A later pool: the gene registry has only grown at its end.\<close>

definition pool_later :: "innovation_pool \<Rightarrow> innovation_pool \<Rightarrow> bool" where
  "pool_later p p' = prefix (m_all_genes p) (m_all_genes p')"

section \<open>Genome: mutations\<close>

text \<open>What the genome reaches through its \<open>m_neat\<close> pointer: the parameters, the
  innovation pool and the generator of the driver.\<close>

record neat =
  params :: parameters
  innov_pool :: innovation_pool
  rand_engine :: engine

text \<open>
  \<open>genome::mutate_add_link\<close>. The bound of the destination selector is
  \<open>size - inputs - 2\<close> in unsigned arithmetic: with fewer than \<open>inputs + 2\<close> known
  neurons it wraps around and the read of \<open>m_known_neuron_ids[to]\<close> is out of range,
  which is \<open>None\<close> here.
\<close>

definition mutate_add_link :: "genome \<Rightarrow> neat \<Rightarrow> (bool \<times> genome \<times> neat) option" where
  "mutate_add_link g n =
     (let ks = m_known_neuron_ids g
      in if length ks < m_number_of_inputs g + 2 then None
         else
           case uniform_int 0 (length ks - 1) (rand_engine n) of (from, e1) \<Rightarrow>
           case uniform_int 0 (length ks - m_number_of_inputs g - 2) e1 of (d, e2) \<Rightarrow>
           let to = d + m_number_of_inputs g + 1
           in if link_exists g (ks ! from) (ks ! to)
              then Some (False, g, n\<lparr>rand_engine := e2\<rparr>)
              else
                let perturbation = initial_weight_perturbation (params n)
                in case find_gene (innov_pool n) (ks ! from) (ks ! to) of
                  Some existing_gene \<Rightarrow>
                    (case uniform_real (- perturbation) perturbation e2 of (w, e3) \<Rightarrow>
                       Some (True, add_gene (existing_gene\<lparr>weight := w\<rparr>) g,
                             n\<lparr>rand_engine := e3\<rparr>))
                | None \<Rightarrow>
                    (case next_innovation (innov_pool n) of (i, p1) \<Rightarrow>
                     case uniform_real (- perturbation) perturbation e2 of (w, e3) \<Rightarrow>
                     let new_gene = mk_gene i (ks ! from) (ks ! to) w;
                         p2 = register_gene new_gene p1;
                         p3 = register_innovation
                                (new_link_innovation (innov_num new_gene) (from_id new_gene)
                                   (to_id new_gene)) p2
                     in Some (True, add_gene new_gene g,
                              n\<lparr>innov_pool := p3, rand_engine := e3\<rparr>)))"

text \<open>
  \<open>genome::mutate_add_neuron\<close>. The candidates are shuffled with the function's own
  static generator, which is the last argument and the last component of the result; the
  generator of the driver is not used.
\<close>

definition mutate_add_neuron ::
  "genome \<Rightarrow> neat \<Rightarrow> engine \<Rightarrow> bool \<times> genome \<times> neat \<times> engine" where
  "mutate_add_neuron g n static_g =
     (case shuffle [0..<length (m_genes g)] static_g of (candidates_idx, static_g') \<Rightarrow>
      case find (\<lambda>idx. enabled (m_genes g ! idx)) candidates_idx of
        None \<Rightarrow> (False, g, n, static_g')
      | Some sel_idx \<Rightarrow>
          let g1 = g\<lparr>m_genes := (m_genes g)[sel_idx := (m_genes g ! sel_idx)\<lparr>enabled := False\<rparr>]\<rparr>;
              sel = m_genes g1 ! sel_idx
          in case find_innovation (innov_pool n) NEW_NEURON (from_id sel) (to_id sel) of
               Some existing_innovation \<Rightarrow>
                 (True,
                  add_gene (mk_gene (i_innov_num_2 existing_innovation)
                              (i_new_neuron_id existing_innovation)
                              (i_to existing_innovation) (weight sel))
                    (add_gene (mk_gene (i_innov_num existing_innovation)
                                 (i_from existing_innovation)
                                 (i_new_neuron_id existing_innovation) (weight sel)) g1),
                  n, static_g')
             | None \<Rightarrow>
                 case next_hidden_neuron_id (innov_pool n) of (new_neuron_id, p1) \<Rightarrow>
                 case next_innovation p1 of (i1, p2) \<Rightarrow>
                 case next_innovation p2 of (i2, p3) \<Rightarrow>
                 let new_gene_1 = mk_gene i1 (from_id sel) new_neuron_id (weight sel);
                     new_gene_2 = mk_gene i2 new_neuron_id (to_id sel) (weight sel);
                     p4 = register_gene new_gene_1 p3;
                     p5 = register_gene new_gene_2 p4;
                     p6 = register_innovation
                            (new_neuron_innovation (innov_num new_gene_1) (innov_num new_gene_2)
                               (from_id sel) (to_id sel) new_neuron_id) p5
                 in (True, add_gene new_gene_2 (add_gene new_gene_1 g1),
                     n\<lparr>innov_pool := p6\<rparr>, static_g'))"

definition mutate_reenable_gene :: "genome \<Rightarrow> neat \<Rightarrow> bool \<times> genome \<times> neat" where
  "mutate_reenable_gene g n =
     (let candidates = filter (\<lambda>i. \<not> enabled (m_genes g ! i)) [0..<length (m_genes g)]
      in if candidates = [] then (False, g, n)
         else case uniform_int 0 (length candidates - 1) (rand_engine n) of (r, e1) \<Rightarrow>
           (True,
            g\<lparr>m_genes := (m_genes g)[candidates ! r :=
                            (m_genes g ! (candidates ! r))\<lparr>enabled := True\<rparr>]\<rparr>,
            n\<lparr>rand_engine := e1\<rparr>))"

definition mutate_toggle_enable :: "genome \<Rightarrow> neat \<Rightarrow> bool \<times> genome \<times> neat" where
  "mutate_toggle_enable g n =
     (if m_genes g = [] then (False, g, n)
      else case uniform_int 0 (length (m_genes g) - 1) (rand_engine n) of (rnd_val, e1) \<Rightarrow>
        (True,
         g\<lparr>m_genes := (m_genes g)[rnd_val :=
                         (m_genes g ! rnd_val)\<lparr>enabled := \<not> enabled (m_genes g ! rnd_val)\<rparr>]\<rparr>,
         n\<lparr>rand_engine := e1\<rparr>))"

definition mutate_one_weight :: "genome \<Rightarrow> neat \<Rightarrow> bool \<times> genome \<times> neat" where
  "mutate_one_weight g n =
     (if m_genes g = [] then (False, g, n)
      else case uniform_int 0 (length (m_genes g) - 1) (rand_engine n) of (rnd_val, e1) \<Rightarrow>
           case uniform_real (- weight_mutation_power (params n))
                  (weight_mutation_power (params n)) e1 of (r, e2) \<Rightarrow>
        (True,
         g\<lparr>m_genes := (m_genes g)[rnd_val :=
                         (m_genes g ! rnd_val)\<lparr>weight := weight (m_genes g ! rnd_val) + r\<rparr>]\<rparr>,
         n\<lparr>rand_engine := e2\<rparr>))"

text \<open>The loops of \<open>mutate_all_weights\<close> and \<open>mutate_reset_weights\<close>: one draw per gene.\<close>

fun perturb_all :: "real \<Rightarrow> gene list \<Rightarrow> engine \<Rightarrow> gene list \<times> engine" where
  "perturb_all pw [] e = ([], e)"
| "perturb_all pw (x # xs) e =
     (case uniform_real (- pw) pw e of (r, e1) \<Rightarrow>
      case perturb_all pw xs e1 of (xs', e2) \<Rightarrow> (x\<lparr>weight := weight x + r\<rparr> # xs', e2))"

fun reset_all :: "real \<Rightarrow> gene list \<Rightarrow> engine \<Rightarrow> gene list \<times> engine" where
  "reset_all pw [] e = ([], e)"
| "reset_all pw (x # xs) e =
     (case uniform_real (- pw) pw e of (r, e1) \<Rightarrow>
      case reset_all pw xs e1 of (xs', e2) \<Rightarrow> (x\<lparr>weight := r\<rparr> # xs', e2))"

definition mutate_all_weights :: "genome \<Rightarrow> neat \<Rightarrow> bool \<times> genome \<times> neat" where
  "mutate_all_weights g n =
     (case perturb_all (weight_mutation_power (params n)) (m_genes g) (rand_engine n) of
        (gs, e1) \<Rightarrow> (True, g\<lparr>m_genes := gs\<rparr>, n\<lparr>rand_engine := e1\<rparr>))"

definition mutate_reset_weights :: "genome \<Rightarrow> neat \<Rightarrow> bool \<times> genome \<times> neat" where
  "mutate_reset_weights g n =
     (case reset_all (initial_weight_perturbation (params n)) (m_genes g) (rand_engine n) of
        (gs, e1) \<Rightarrow> (True, g\<lparr>m_genes := gs\<rparr>, n\<lparr>rand_engine := e1\<rparr>))"

definition mutate_remove_gene :: "genome \<Rightarrow> neat \<Rightarrow> bool \<times> genome \<times> neat" where
  "mutate_remove_gene g n =
     (if m_genes g = [] then (False, g, n)
      else case uniform_int 0 (length (m_genes g) - 1) (rand_engine n) of (i, e1) \<Rightarrow>
        (True, g\<lparr>m_genes := take i (m_genes g) @ drop (Suc i) (m_genes g)\<rparr>,
         n\<lparr>rand_engine := e1\<rparr>))"

text \<open>
  \<open>genome::random_mutate\<close>, in two steps: the operator that the drawn value selects, and
  the call of that operator.
  Modelled from the spec: \<open>sum_all_mutation_weights\<close> (of the absent \<open>parameters\<close>) is the
  sum of the eight selection weights.
\<close>

datatype mutation =
  AddLink | AddNeuron | AllWeights | OneWeight | ResetWeights | RemoveGene | ReenableGene
  | ToggleEnable

definition sum_all_mutation_weights :: "parameters \<Rightarrow> nat" where
  "sum_all_mutation_weights p =
     mutation_add_link_weight p + mutation_add_neuron_weight p + mutation_all_weights_weight p
     + mutation_one_weight_weight p + mutation_reset_weights_weight p
     + mutation_remove_gene_weight p + mutation_reenable_gene_weight p
     + mutation_toggle_enable_weight p"

definition select_mutation :: "parameters \<Rightarrow> nat \<Rightarrow> mutation" where
  "select_mutation p rnd_val =
     (if rnd_val < mutation_add_link_weight p then AddLink
      else let r1 = rnd_val - mutation_add_link_weight p in
      if r1 < mutation_add_neuron_weight p then AddNeuron
      else let r2 = r1 - mutation_add_neuron_weight p in
      if r2 < mutation_all_weights_weight p then AllWeights
      else let r3 = r2 - mutation_all_weights_weight p in
      if r3 < mutation_one_weight_weight p then OneWeight
      else let r4 = r3 - mutation_one_weight_weight p in
      if r4 < mutation_reset_weights_weight p then ResetWeights
      else let r5 = r4 - mutation_reset_weights_weight p in
      if r5 < mutation_remove_gene_weight p then RemoveGene
      else let r6 = r5 - mutation_remove_gene_weight p in
      if r6 < mutation_reenable_gene_weight p then ReenableGene
      else ToggleEnable)"

definition with_static ::
  "engine \<Rightarrow> bool \<times> genome \<times> neat \<Rightarrow> bool \<times> genome \<times> neat \<times> engine" where
  "with_static static_g r = (case r of (ok, g, n) \<Rightarrow> (ok, g, n, static_g))"

fun apply_mutation ::
  "mutation \<Rightarrow> genome \<Rightarrow> neat \<Rightarrow> engine \<Rightarrow> (bool \<times> genome \<times> neat \<times> engine) option" where
  "apply_mutation AddLink g n s = map_option (with_static s) (mutate_add_link g n)"
| "apply_mutation AddNeuron g n s = Some (mutate_add_neuron g n s)"
| "apply_mutation AllWeights g n s = Some (with_static s (mutate_all_weights g n))"
| "apply_mutation OneWeight g n s = Some (with_static s (mutate_one_weight g n))"
| "apply_mutation ResetWeights g n s = Some (with_static s (mutate_reset_weights g n))"
| "apply_mutation RemoveGene g n s = Some (with_static s (mutate_remove_gene g n))"
| "apply_mutation ReenableGene g n s = Some (with_static s (mutate_reenable_gene g n))"
| "apply_mutation ToggleEnable g n s = Some (with_static s (mutate_toggle_enable g n))"

text \<open>The bound of the selector is \<open>sum - 1\<close> in 32-bit unsigned arithmetic.\<close>

definition random_mutate ::
  "genome \<Rightarrow> neat \<Rightarrow> engine \<Rightarrow> (bool \<times> genome \<times> neat \<times> engine) option" where
  "random_mutate g n s =
     (let total = sum_all_mutation_weights (params n);
          hi = (if total = 0 then 2 ^ 32 - 1 else total - 1)
      in case uniform_int 0 hi (rand_engine n) of (rnd_val, e1) \<Rightarrow>
           apply_mutation (select_mutation (params n) rnd_val) g (n\<lparr>rand_engine := e1\<rparr>) s)"

text \<open>
  The loop of \<open>genome::get_random_mutation\<close>,
  \<open>while (!offspring.random_mutate() && remaining_tries--) {}\<close>: after a failed attempt the
  loop goes on when the counter is not yet zero, and decrements it.
\<close>

fun mutation_tries ::
  "nat \<Rightarrow> genome \<Rightarrow> neat \<Rightarrow> engine \<Rightarrow> (genome \<times> neat \<times> engine) option" where
  "mutation_tries 0 g n s =
     (case random_mutate g n s of
        None \<Rightarrow> None
      | Some (ok, g', n', s') \<Rightarrow> Some (g', n', s'))"
| "mutation_tries (Suc remaining_tries) g n s =
     (case random_mutate g n s of
        None \<Rightarrow> None
      | Some (ok, g', n', s') \<Rightarrow>
          if ok then Some (g', n', s') else mutation_tries remaining_tries g' n' s')"

text \<open>\<open>genome::get_random_mutation\<close>: the offspring is a copy, mutated with three
  remaining tries, and returned through the move constructor.\<close>

definition get_random_mutation ::
  "genome \<Rightarrow> neat \<Rightarrow> engine \<Rightarrow> (genome \<times> neat \<times> engine) option" where
  "get_random_mutation g n s =
     map_option (\<lambda>(offspring, n', s'). (genome_move offspring, n', s'))
       (mutation_tries 3 g n s)"

text \<open>The same loop, counting the calls of \<open>random_mutate\<close>.\<close>

fun mutation_attempts :: "nat \<Rightarrow> genome \<Rightarrow> neat \<Rightarrow> engine \<Rightarrow> nat option" where
  "mutation_attempts 0 g n s =
     (case random_mutate g n s of None \<Rightarrow> None | Some (ok, g', n', s') \<Rightarrow> Some 1)"
| "mutation_attempts (Suc remaining_tries) g n s =
     (case random_mutate g n s of
        None \<Rightarrow> None
      | Some (ok, g', n', s') \<Rightarrow>
          if ok then Some 1
          else map_option Suc (mutation_attempts remaining_tries g' n' s'))"

text \<open>The structural invariants of a genome.\<close>

definition endpoints_known :: "genome \<Rightarrow> bool" where
  "endpoints_known g =
     list_all (\<lambda>x. from_id x \<in> set (m_known_neuron_ids g) \<and> to_id x \<in> set (m_known_neuron_ids g))
       (m_genes g)"

definition below_counter :: "genome \<Rightarrow> innovation_pool \<Rightarrow> bool" where
  "below_counter g p = list_all (\<lambda>x. innov_num x < m_next_innovation p) (m_genes g)"


section \<open>Driver\<close>

text \<open>
  The members of \<open>base_neat\<close>, over what the genome reaches. The species class is not
  among the sources: its type is a parameter. The population belongs to the derived
  driver (\<open>pop()\<close>); the functions that read it take the list of its genomes.
\<close>

record 's base_neat = neat +
  m_all_species :: "'s list"
  m_best_genomes_library :: "genome list"
  m_next_species_id :: nat
  m_best_genome_ever :: "genome option"
  m_age_of_best_genome_ever :: nat

text \<open>The bounds of \<open>std::numeric_limits<double>\<close>: \<open>max()\<close> is the largest finite
  value, \<open>min()\<close> the smallest positive normal value.\<close>

definition DBL_MAX :: real where
  "DBL_MAX = (2 - 1 / 2 ^ 52) * 2 ^ 1023"

definition DBL_MIN :: real where
  "DBL_MIN = 1 / 2 ^ 1022"

text \<open>The loop of \<open>get_current_best_genome\<close>; the champion is a pointer, null at first.\<close>

fun champion_scan :: "genome list \<Rightarrow> real \<Rightarrow> genome option \<Rightarrow> genome option" where
  "champion_scan [] best_fitness_so_far champion = champion"
| "champion_scan (geno # rest) best_fitness_so_far champion =
     (if m_fitness geno > best_fitness_so_far
      then champion_scan rest (m_fitness geno) (Some geno)
      else champion_scan rest best_fitness_so_far champion)"

text \<open>\<open>base_neat::get_current_best_genome\<close> of \<open>base_neat.cpp\<close>. The result \<open>None\<close> is the
  dereference of the null pointer.\<close>

definition get_current_best_genome :: "genome list \<Rightarrow> genome option" where
  "get_current_best_genome population = champion_scan population (- DBL_MAX) None"

text \<open>\<open>base_neat::get_current_best_genome\<close> of the second driver source
  (\<open>unnamed/part_001\<close>), which starts from \<open>min()\<close>.\<close>

definition get_current_best_genome_part_001 :: "genome list \<Rightarrow> genome option" where
  "get_current_best_genome_part_001 population = champion_scan population DBL_MIN None"

section \<open>Serialisation\<close>

text \<open>
  Modelled from the spec: the serializer and the deserializer (not among the sources), a
  textual, line-oriented stream. The stream is the list of the values appended, with a mark
  for each line end; \<open>get_next\<close> skips line ends and fails (\<open>None\<close>) on a value of another
  kind or at the end of the stream.
\<close>

datatype token = TNat nat | TReal real | TBool bool | NL

fun skip_nl :: "token list \<Rightarrow> token list" where
  "skip_nl (NL # ts) = skip_nl ts"
| "skip_nl ts = ts"

definition get_nat :: "token list \<Rightarrow> (nat \<times> token list) option" where
  "get_nat ts = (case skip_nl ts of TNat v # r \<Rightarrow> Some (v, r) | _ \<Rightarrow> None)"

definition get_real :: "token list \<Rightarrow> (real \<times> token list) option" where
  "get_real ts = (case skip_nl ts of TReal v # r \<Rightarrow> Some (v, r) | _ \<Rightarrow> None)"

definition get_bool :: "token list \<Rightarrow> (bool \<times> token list) option" where
  "get_bool ts = (case skip_nl ts of TBool v # r \<Rightarrow> Some (v, r) | _ \<Rightarrow> None)"

text \<open>
  The stream operators of the genome, the species and the innovation pool, and the
  constructor of the species, are not among the sources either: the driver's functions take
  them as parameters. An extraction operator reads into an object that exists.
\<close>

record 's stream_ops =
  ser_genome :: "genome \<Rightarrow> token list"
  des_genome :: "genome \<Rightarrow> token list \<Rightarrow> (genome \<times> token list) option"
  new_species :: "nat \<Rightarrow> genome \<Rightarrow> 's"
  ser_species :: "'s \<Rightarrow> token list"
  des_species :: "'s \<Rightarrow> token list \<Rightarrow> ('s \<times> token list) option"
  ser_pool :: "innovation_pool \<Rightarrow> token list"
  des_pool :: "innovation_pool \<Rightarrow> token list \<Rightarrow> (innovation_pool \<times> token list) option"

text \<open>\<open>base_neat::helper_serialize_base_neat\<close>.\<close>

definition helper_serialize_base_neat :: "'s stream_ops \<Rightarrow> 's base_neat \<Rightarrow> token list" where
  "helper_serialize_base_neat ops d =
     [TNat (m_next_species_id d), TNat (m_age_of_best_genome_ever d),
      TReal (compatibility_threshold (params d))]
     @ (case m_best_genome_ever d of
          None \<Rightarrow> [TBool False, NL]
        | Some best \<Rightarrow> [TBool True, NL] @ ser_genome ops best)
     @ [TNat (length (m_all_species d)), NL]
     @ concat (map (ser_species ops) (m_all_species d))
     @ [TNat (length (m_best_genomes_library d)), NL]
     @ concat (map (ser_genome ops) (m_best_genomes_library d))
     @ ser_pool ops (innov_pool d)"

text \<open>The two loops of \<open>helper_deserialize_base_neat\<close>: every species is read into a
  species built around a dummy genome; every genome of the library is read into a new
  genome and moved into the vector.\<close>

fun des_species_loop ::
  "'s stream_ops \<Rightarrow> parameters \<Rightarrow> nat \<Rightarrow> token list \<Rightarrow> ('s list \<times> token list) option" where
  "des_species_loop ops p 0 ts = Some ([], ts)"
| "des_species_loop ops p (Suc k) ts =
     do {
       (species, t1) \<leftarrow> des_species ops (new_species ops 0 (genome_new p)) ts;
       (rest, t2) \<leftarrow> des_species_loop ops p k t1;
       Some (species # rest, t2)
     }"

fun des_library_loop ::
  "'s stream_ops \<Rightarrow> parameters \<Rightarrow> nat \<Rightarrow> token list \<Rightarrow> (genome list \<times> token list) option" where
  "des_library_loop ops p 0 ts = Some ([], ts)"
| "des_library_loop ops p (Suc k) ts =
     do {
       (g, t1) \<leftarrow> des_genome ops (genome_new p) ts;
       (rest, t2) \<leftarrow> des_library_loop ops p k t1;
       Some (genome_move g # rest, t2)
     }"

text \<open>\<open>base_neat::helper_deserialize_base_neat\<close>.\<close>

definition helper_deserialize_base_neat ::
  "'s stream_ops \<Rightarrow> 's base_neat \<Rightarrow> token list \<Rightarrow> ('s base_neat \<times> token list) option" where
  "helper_deserialize_base_neat ops d ts =
     do {
       (next_species_id, t1) \<leftarrow> get_nat ts;
       (age, t2) \<leftarrow> get_nat t1;
       (compat_thres, t3) \<leftarrow> get_real t2;
       let p = (if dynamic_compatibility_threshold (params d)
                then (params d)\<lparr>compatibility_threshold := compat_thres\<rparr>
                else params d);
       (has_best_genome_ever, t4) \<leftarrow> get_bool t3;
       (best, t5) \<leftarrow>
         (if has_best_genome_ever
          then do {
                 (best_g, t) \<leftarrow> des_genome ops (genome_new p) t4;
                 Some (Some (genome_move best_g), t)
               }
          else Some (m_best_genome_ever d, t4));
       (number_of_species, t6) \<leftarrow> get_nat t5;
       (all_species, t7) \<leftarrow> des_species_loop ops p number_of_species t6;
       (number_of_genomes, t8) \<leftarrow> get_nat t7;
       (library, t9) \<leftarrow> des_library_loop ops p number_of_genomes t8;
       (pool, t10) \<leftarrow> des_pool ops (innov_pool d) t9;
       Some (d\<lparr>params := p, innov_pool := pool, m_all_species := all_species,
               m_best_genomes_library := library, m_next_species_id := next_species_id,
               m_best_genome_ever := best, m_age_of_best_genome_ever := age\<rparr>, t10)
     }"

text \<open>
  Modelled from the spec: the stream operators of the genome (not among the sources). A
  genome serialises as number of inputs, number of outputs, fitness, gene count, then each
  gene as \<open>(innov, from, to, weight, enabled)\<close>; reading it back adds the genes in order.
\<close>

definition gene_tokens :: "gene \<Rightarrow> token list" where
  "gene_tokens x =
     [TNat (innov_num x), TNat (from_id x), TNat (to_id x), TReal (weight x), TBool (enabled x),
      NL]"

definition genome_serialize :: "genome \<Rightarrow> token list" where
  "genome_serialize g =
     [TNat (m_number_of_inputs g), TNat (m_number_of_outputs g), TReal (m_fitness g),
      TNat (length (m_genes g)), NL]
     @ concat (map gene_tokens (m_genes g))"

definition get_gene :: "token list \<Rightarrow> (gene \<times> token list) option" where
  "get_gene ts =
     do {
       (i, t1) \<leftarrow> get_nat ts;
       (f, t2) \<leftarrow> get_nat t1;
       (t, t3) \<leftarrow> get_nat t2;
       (w, t4) \<leftarrow> get_real t3;
       (en, t5) \<leftarrow> get_bool t4;
       Some (\<lparr>innov_num = i, from_id = f, to_id = t, weight = w, enabled = en\<rparr>, t5)
     }"

fun get_genes :: "nat \<Rightarrow> token list \<Rightarrow> (gene list \<times> token list) option" where
  "get_genes 0 ts = Some ([], ts)"
| "get_genes (Suc k) ts =
     do {
       (x, t1) \<leftarrow> get_gene ts;
       (xs, t2) \<leftarrow> get_genes k t1;
       Some (x # xs, t2)
     }"

definition genome_deserialize :: "genome \<Rightarrow> token list \<Rightarrow> (genome \<times> token list) option" where
  "genome_deserialize g ts =
     do {
       (number_of_inputs, t1) \<leftarrow> get_nat ts;
       (number_of_outputs, t2) \<leftarrow> get_nat t1;
       (fitness, t3) \<leftarrow> get_real t2;
       (gene_count, t4) \<leftarrow> get_nat t3;
       (genes, t5) \<leftarrow> get_genes gene_count t4;
       Some (foldl (\<lambda>acc x. add_gene x acc)
               (g\<lparr>m_number_of_inputs := number_of_inputs,
                  m_number_of_outputs := number_of_outputs, m_fitness := fitness\<rparr>) genes, t5)
     }"

text \<open>The genome's operators of the specification, for a driver without species: the
  operators of the species are never called, and the pool, whose format the specification
  leaves open, is handed over as it is.\<close>

definition genome_stream_ops :: "unit stream_ops" where
  "genome_stream_ops =
     \<lparr>ser_genome = genome_serialize, des_genome = genome_deserialize,
      new_species = (\<lambda>_ _. ()), ser_species = (\<lambda>_. []),
      des_species = (\<lambda>s ts. Some (s, ts)),
      ser_pool = (\<lambda>_. []), des_pool = (\<lambda>p ts. Some (p, ts))\<rparr>"

text \<open>
  A driver to be saved, whose best genome ever has two genes and the fitness 3.9, the
  stream after the first four values that it serialises to, a new driver with the same
  parameters, and the new driver after reading the stream.
\<close>

definition saved_driver :: "unit base_neat" where
  "saved_driver =
     \<lparr>params = unit_params,
      innov_pool = \<lparr>m_next_innovation = 2, m_next_hidden_neuron_id = 3, m_all_genes = [],
                    m_all_innovations = []\<rparr>,
      rand_engine = \<lparr>ints = (\<lambda>_. 0), reals = (\<lambda>_. 0), pos = 0\<rparr>,
      m_all_species = [],
      m_best_genomes_library = [],
      m_next_species_id = 1,
      m_best_genome_ever =
        Some (add_gene (mk_gene 1 1 2 (1 / 2)) (add_gene (mk_gene 0 0 2 (1 / 4))
               ((genome_new unit_params)\<lparr>m_fitness := 39 / 10\<rparr>))),
      m_age_of_best_genome_ever = 7\<rparr>"

definition saved_tail :: "token list" where
  "saved_tail =
     [NL, TNat 1, TNat 1, TReal (39 / 10), TNat 2, NL,
      TNat 0, TNat 0, TNat 2, TReal (1 / 4), TBool True, NL,
      TNat 1, TNat 1, TNat 2, TReal (1 / 2), TBool True, NL,
      TNat 0, NL, TNat 0, NL]"

definition fresh_driver :: "unit base_neat" where
  "fresh_driver =
     \<lparr>params = unit_params,
      innov_pool = \<lparr>m_next_innovation = 2, m_next_hidden_neuron_id = 3, m_all_genes = [],
                    m_all_innovations = []\<rparr>,
      rand_engine = \<lparr>ints = (\<lambda>_. 0), reals = (\<lambda>_. 0), pos = 0\<rparr>,
      m_all_species = [],
      m_best_genomes_library = [],
      m_next_species_id = 0,
      m_best_genome_ever = None,
      m_age_of_best_genome_ever = 0\<rparr>"

definition restored_driver :: "unit base_neat" where
  "restored_driver =
     fresh_driver\<lparr>m_next_species_id := 1,
       m_best_genome_ever :=
         Some \<lparr>m_number_of_inputs = 1, m_number_of_outputs = 1,
               m_genes = [mk_gene 0 0 2 (1 / 4), mk_gene 1 1 2 (1 / 2)],
               m_known_neuron_ids = [0, 1, 2], m_fitness = 0\<rparr>,
       m_age_of_best_genome_ever := 7\<rparr>"

text \<open>
  Sample data for the mutations: an engine whose outcomes are all zero, a driver context
  with an empty pool, a genome with two inputs and three outputs whose only enabled gene
  is \<open>(2, 5)\<close> of weight 0.7, and a genome without an enabled gene.
\<close>

definition zero_engine :: engine where
  "zero_engine = \<lparr>ints = (\<lambda>_. 0), reals = (\<lambda>_. 0), pos = 0\<rparr>"

definition split_params :: parameters where
  "split_params = unit_params\<lparr>number_of_inputs := 2, number_of_outputs := 3\<rparr>"

definition split_neat :: neat where
  "split_neat =
     \<lparr>params = split_params,
      innov_pool = \<lparr>m_next_innovation = 2, m_next_hidden_neuron_id = 6, m_all_genes = [],
                    m_all_innovations = []\<rparr>,
      rand_engine = zero_engine\<rparr>"

definition split_genome :: genome where
  "split_genome =
     \<lparr>m_number_of_inputs = 2, m_number_of_outputs = 3,
      m_genes = [(mk_gene 0 0 5 (1 / 2))\<lparr>enabled := False\<rparr>, mk_gene 1 2 5 (7 / 10)],
      m_known_neuron_ids = [0, 1, 2, 3, 4, 5], m_fitness = 0\<rparr>"

definition disabled_genome :: genome where
  "disabled_genome =
     \<lparr>m_number_of_inputs = 2, m_number_of_outputs = 3,
      m_genes = [(mk_gene 0 0 5 (1 / 2))\<lparr>enabled := False\<rparr>],
      m_known_neuron_ids = [0, 1, 2, 3, 4, 5], m_fitness = 0\<rparr>"

text \<open>
  A driver context for the parameters \<open>unit_params\<close>, where \<open>remove_gene\<close> is the only
  operator with a selection weight; the genome built by the constructor has no gene.
\<close>

definition retry_neat :: neat where
  "retry_neat =
     \<lparr>params = unit_params,
      innov_pool = \<lparr>m_next_innovation = 2, m_next_hidden_neuron_id = 3, m_all_genes = [],
                    m_all_innovations = []\<rparr>,
      rand_engine = zero_engine\<rparr>"

text \<open>
  Two genomes with two inputs and one output that lack the link \<open>(1, 3)\<close>, a driver
  context whose generator delivers the outcome 1 at every draw, and what the two
  \<open>mutate_add_link\<close> calls, one after the other, make of them.
\<close>

definition one_engine :: engine where
  "one_engine = \<lparr>ints = (\<lambda>_. 1), reals = (\<lambda>i. real i / 10), pos = 0\<rparr>"

definition dedup_params :: parameters where
  "dedup_params = unit_params\<lparr>number_of_inputs := 2, number_of_outputs := 1\<rparr>"

definition dedup_neat :: neat where
  "dedup_neat =
     \<lparr>params = dedup_params,
      innov_pool = \<lparr>m_next_innovation = 3, m_next_hidden_neuron_id = 4, m_all_genes = [],
                    m_all_innovations = []\<rparr>,
      rand_engine = one_engine\<rparr>"

definition dedup_genome_a :: genome where
  "dedup_genome_a =
     \<lparr>m_number_of_inputs = 2, m_number_of_outputs = 1,
      m_genes = [mk_gene 0 0 3 0, mk_gene 2 2 3 0],
      m_known_neuron_ids = [0, 1, 2, 3], m_fitness = 0\<rparr>"

definition dedup_genome_b :: genome where
  "dedup_genome_b =
     \<lparr>m_number_of_inputs = 2, m_number_of_outputs = 1,
      m_genes = [mk_gene 0 0 3 0],
      m_known_neuron_ids = [0, 1, 2, 3], m_fitness = 0\<rparr>"

definition dedup_pool :: innovation_pool where
  "dedup_pool =
     \<lparr>m_next_innovation = 4, m_next_hidden_neuron_id = 4,
      m_all_genes = [mk_gene 3 1 3 (2 / 10)],
      m_all_innovations = [new_link_innovation 3 1 3]\<rparr>"

definition dedup_neat_1 :: neat where
  "dedup_neat_1 = dedup_neat\<lparr>innov_pool := dedup_pool, rand_engine := one_engine\<lparr>pos := 3\<rparr>\<rparr>"

definition dedup_neat_2 :: neat where
  "dedup_neat_2 = dedup_neat\<lparr>innov_pool := dedup_pool, rand_engine := one_engine\<lparr>pos := 6\<rparr>\<rparr>"

text \<open>What the structural invariants read of a gene: innovation number and end points.\<close>

definition gene_keys :: "gene list \<Rightarrow> (nat \<times> nat \<times> nat) list" where
  "gene_keys xs = map (\<lambda>x. (innov_num x, from_id x, to_id x)) xs"

text \<open>The genome and the driver context that the split of \<open>split_genome\<close> leaves.\<close>

definition split_genome_after :: genome where
  "split_genome_after =
     \<lparr>m_number_of_inputs = 2, m_number_of_outputs = 3,
      m_genes = [(mk_gene 0 0 5 (1 / 2))\<lparr>enabled := False\<rparr>,
                 (mk_gene 1 2 5 (7 / 10))\<lparr>enabled := False\<rparr>,
                 mk_gene 2 2 6 (7 / 10), mk_gene 3 6 5 (7 / 10)],
      m_known_neuron_ids = [0, 1, 2, 3, 4, 5, 6], m_fitness = 0\<rparr>"

definition split_neat_after :: neat where
  "split_neat_after =
     split_neat\<lparr>innov_pool :=
       \<lparr>m_next_innovation = 4, m_next_hidden_neuron_id = 7,
        m_all_genes = [mk_gene 2 2 6 (7 / 10), mk_gene 3 6 5 (7 / 10)],
        m_all_innovations = [new_neuron_innovation 2 3 2 5 6]\<rparr>\<rparr>"

text \<open>
  A genome of a run with one input and one output: the gene \<open>(1, 2)\<close> of the initial
  genome has been removed, the gene \<open>(0, 2)\<close> has been split by the neuron 3. In the
  meantime another genome has received the link \<open>(1, 2)\<close> anew, under the innovation number
  2 that the pool records. The generator delivers the outcome 1 and then zeros.
\<close>

definition reuse_genome :: genome where
  "reuse_genome =
     \<lparr>m_number_of_inputs = 1, m_number_of_outputs = 1,
      m_genes = [(mk_gene 0 0 2 0)\<lparr>enabled := False\<rparr>, mk_gene 3 0 3 0, mk_gene 4 3 2 0],
      m_known_neuron_ids = [0, 1, 2, 3], m_fitness = 0\<rparr>"

definition reuse_neat :: neat where
  "reuse_neat =
     \<lparr>params = unit_params,
      innov_pool =
        \<lparr>m_next_innovation = 5, m_next_hidden_neuron_id = 4,
         m_all_genes = [mk_gene 2 1 2 0, mk_gene 3 0 3 0, mk_gene 4 3 2 0],
         m_all_innovations = [new_link_innovation 2 1 2, new_neuron_innovation 3 4 0 2 3]\<rparr>,
      rand_engine = \<lparr>ints = (\<lambda>i. if i = 0 then 1 else 0), reals = (\<lambda>_. 0), pos = 0\<rparr>\<rparr>"

text \<open>A genome with two enabled genes.\<close>

definition twin_genome :: genome where
  "twin_genome =
     \<lparr>m_number_of_inputs = 1, m_number_of_outputs = 1,
      m_genes = [mk_gene 0 0 2 (1 / 2), mk_gene 1 1 2 (1 / 4)],
      m_known_neuron_ids = [0, 1, 2], m_fitness = 0\<rparr>"

section \<open>The distance walk computes the classification of the specification\<close>

lemma innov_sorted_Cons:
  "innov_sorted (x # xs) \<longleftrightarrow> (\<forall>y\<in>set xs. innov_num x < innov_num y) \<and> innov_sorted xs"
  by (auto simp: innov_sorted_def)


lemma above_head:
  assumes "innov_num b < innov_num x"
  shows "is_matching x (b # bs) = is_matching x bs"
    and "is_excess x (b # bs) = is_excess x bs"
    and "is_disjoint x (b # bs) = is_disjoint x bs"
    and "weight_diff x (b # bs) = weight_diff x bs"
  using assms by (auto simp: is_matching_def is_excess_def is_disjoint_def weight_diff_def)

lemma below_all:
  assumes "\<forall>y\<in>set ys. innov_num x < innov_num y"
  shows "\<not> is_matching x ys" and "weight_diff x ys = 0"
proof -
  show "\<not> is_matching x ys"
    using assms by (auto simp: is_matching_def list_ex_iff)
  have "find (\<lambda>y. innov_num y = innov_num x) ys = None"
    using assms by (auto simp: find_None_iff)
  then show "weight_diff x ys = 0"
    by (simp add: weight_diff_def)
qed

lemma counts_above_head:
  assumes "\<forall>x\<in>set xs. innov_num b < innov_num x"
  shows "filter (\<lambda>x. is_matching x (b # bs)) xs = filter (\<lambda>x. is_matching x bs) xs"
    and "filter (\<lambda>x. is_excess x (b # bs)) xs = filter (\<lambda>x. is_excess x bs) xs"
    and "filter (\<lambda>x. is_disjoint x (b # bs)) xs = filter (\<lambda>x. is_disjoint x bs) xs"
    and "map (\<lambda>x. weight_diff x (b # bs)) xs = map (\<lambda>x. weight_diff x bs) xs"
  using assms by (auto intro!: filter_cong simp: above_head)

lemma spec_counts_match:
  assumes "innov_sorted (a # as)" "innov_sorted (b # bs)" "innov_num a = innov_num b"
  shows "spec_matching (a # as) (b # bs) = Suc (spec_matching as bs)"
    and "spec_disjoint (a # as) (b # bs) = spec_disjoint as bs"
    and "spec_excess (a # as) (b # bs) = spec_excess as bs"
    and "spec_sum_weight_diff (a # as) (b # bs) = \<bar>weight a - weight b\<bar> + spec_sum_weight_diff as bs"
proof -
  have xs: "\<forall>x\<in>set as. innov_num b < innov_num x" and ys: "\<forall>y\<in>set bs. innov_num a < innov_num y"
    using assms by (auto simp: innov_sorted_Cons)
  have ma: "is_matching a (b # bs)" "is_matching b (a # as)"
    using assms(3) by (simp_all add: is_matching_def)
  have ea: "\<not> is_excess a (b # bs)" "\<not> is_excess b (a # as)"
    using assms(3) by (simp_all add: is_excess_def)
  have wa: "weight_diff a (b # bs) = \<bar>weight a - weight b\<bar>"
    using assms(3) by (simp add: weight_diff_def)
  show "spec_matching (a # as) (b # bs) = Suc (spec_matching as bs)"
    by (simp add: spec_matching_def ma counts_above_head [OF xs])
  show "spec_disjoint (a # as) (b # bs) = spec_disjoint as bs"
    by (simp add: spec_disjoint_def is_disjoint_def [of a] is_disjoint_def [of b] ma
        counts_above_head [OF xs] counts_above_head [OF ys])
  show "spec_excess (a # as) (b # bs) = spec_excess as bs"
    by (simp add: spec_excess_def ea counts_above_head [OF xs] counts_above_head [OF ys])
  show "spec_sum_weight_diff (a # as) (b # bs) = \<bar>weight a - weight b\<bar> + spec_sum_weight_diff as bs"
    by (simp add: spec_sum_weight_diff_def wa counts_above_head [OF xs])
qed

lemma spec_counts_left:
  assumes "innov_sorted (a # as)" "innov_sorted (b # bs)" "innov_num a < innov_num b"
  shows "spec_matching (a # as) (b # bs) = spec_matching as (b # bs)"
    and "spec_disjoint (a # as) (b # bs) = Suc (spec_disjoint as (b # bs))"
    and "spec_excess (a # as) (b # bs) = spec_excess as (b # bs)"
    and "spec_sum_weight_diff (a # as) (b # bs) = spec_sum_weight_diff as (b # bs)"
proof -
  have ys: "\<forall>y\<in>set (b # bs). innov_num a < innov_num y"
    using assms by (auto simp: innov_sorted_Cons)
  have ma: "\<not> is_matching a (b # bs)" and wa: "weight_diff a (b # bs) = 0"
    using below_all [OF ys] by simp_all
  have ea: "\<not> is_excess a (b # bs)"
    using assms(3) by (simp add: is_excess_def)
  show "spec_matching (a # as) (b # bs) = spec_matching as (b # bs)"
    by (simp add: spec_matching_def ma)
  show "spec_disjoint (a # as) (b # bs) = Suc (spec_disjoint as (b # bs))"
    unfolding spec_disjoint_def counts_above_head [OF ys]
    by (simp add: is_disjoint_def [of a] ma ea)
  show "spec_excess (a # as) (b # bs) = spec_excess as (b # bs)"
    unfolding spec_excess_def counts_above_head [OF ys]
    by (simp add: ea)
  show "spec_sum_weight_diff (a # as) (b # bs) = spec_sum_weight_diff as (b # bs)"
    by (simp add: spec_sum_weight_diff_def wa)
qed

lemma spec_counts_right:
  assumes "innov_sorted (a # as)" "innov_sorted (b # bs)" "innov_num b < innov_num a"
  shows "spec_matching (a # as) (b # bs) = spec_matching (a # as) bs"
    and "spec_disjoint (a # as) (b # bs) = Suc (spec_disjoint (a # as) bs)"
    and "spec_excess (a # as) (b # bs) = spec_excess (a # as) bs"
    and "spec_sum_weight_diff (a # as) (b # bs) = spec_sum_weight_diff (a # as) bs"
proof -
  have xs: "\<forall>x\<in>set (a # as). innov_num b < innov_num x"
    using assms by (auto simp: innov_sorted_Cons)
  have mb: "\<not> is_matching b (a # as)"
    using below_all [OF xs] by simp
  have eb: "\<not> is_excess b (a # as)"
    using assms(3) by (simp add: is_excess_def)
  show "spec_matching (a # as) (b # bs) = spec_matching (a # as) bs"
    by (simp only: spec_matching_def counts_above_head [OF xs])
  show "spec_disjoint (a # as) (b # bs) = Suc (spec_disjoint (a # as) bs)"
    unfolding spec_disjoint_def counts_above_head [OF xs]
    by (simp add: is_disjoint_def [of b] mb eb)
  show "spec_excess (a # as) (b # bs) = spec_excess (a # as) bs"
    unfolding spec_excess_def counts_above_head [OF xs]
    by (simp add: eb)
  show "spec_sum_weight_diff (a # as) (b # bs) = spec_sum_weight_diff (a # as) bs"
    by (simp only: spec_sum_weight_diff_def counts_above_head [OF xs])
qed

lemma walk_refines:
  "innov_sorted xs \<Longrightarrow> innov_sorted ys \<Longrightarrow>
   \<exists>r1 r2. distance_walk xs ys d m s =
     (d + spec_disjoint xs ys, m + spec_matching xs ys, s + spec_sum_weight_diff xs ys, r1, r2)
     \<and> length r1 + length r2 = spec_excess xs ys"
proof (induction xs ys d m s rule: distance_walk.induct)
  case (1 a as b bs d m s)
  have sa: "innov_sorted as" and sb: "innov_sorted bs"
    using "1.prems" by (simp_all add: innov_sorted_Cons)
  consider (eq) "innov_num a = innov_num b" | (lt) "innov_num a < innov_num b"
    | (gt) "innov_num b < innov_num a"
    by linarith
  then show ?case
  proof cases
    case eq
    from "1.IH"(1) [OF eq sa sb] show ?thesis
      using eq by (simp add: spec_counts_match [OF "1.prems" eq] add.assoc)
  next
    case lt
    then have ne: "innov_num a \<noteq> innov_num b" by simp
    from "1.IH"(2) [OF ne lt sa "1.prems"(2)] show ?thesis
      using lt ne by (simp add: spec_counts_left [OF "1.prems" lt])
  next
    case gt
    then have ne: "innov_num a \<noteq> innov_num b" and nl: "\<not> innov_num a < innov_num b" by simp_all
    from "1.IH"(3) [OF ne nl "1.prems"(1) sb] show ?thesis
      using gt ne nl by (simp add: spec_counts_right [OF "1.prems" gt])
  qed
next
  case (2 bs d m s)
  then show ?case
    by (simp add: spec_disjoint_def spec_matching_def spec_sum_weight_diff_def spec_excess_def is_excess_def is_disjoint_def is_matching_def)
next
  case (3 v va d m s)
  then show ?case 
    by (simp add: spec_disjoint_def spec_matching_def spec_sum_weight_diff_def spec_excess_def is_excess_def is_disjoint_def is_matching_def weight_diff_def)
qed


lemma distance_counters_refines:
  assumes "innov_sorted xs" "innov_sorted ys"
  shows "distance_counters xs ys =
    (spec_disjoint xs ys, spec_excess xs ys, spec_matching xs ys, spec_sum_weight_diff xs ys)"
proof -
  from walk_refines [OF assms, of 0 0 0] obtain r1 r2 where
    "distance_walk xs ys 0 0 0 =
       (0 + spec_disjoint xs ys, 0 + spec_matching xs ys, 0 + spec_sum_weight_diff xs ys, r1, r2)"
    and "length r1 + length r2 = spec_excess xs ys"
    by blast
  then show ?thesis
    by (simp add: distance_counters_def)
qed

lemma genes_of_sorted: "sorted_wrt (<) is \<Longrightarrow> innov_sorted (genes_of w is)"
  by (simp add: innov_sorted_def genes_of_def mk_gene_def comp_def)

lemma scenario_counters:
  "distance_counters (genes_of w [1, 2, 3, 5, 8]) (genes_of w [1, 2, 4, 5, 9, 10]) = (3, 2, 3, 0)"
  by (simp add: distance_counters_def genes_of_def mk_gene_def)

text \<open>
  C2, the scenario as the claim states it: for the innovation numbers \<open>{1,2,3,5,8}\<close> and
  \<open>{1,2,4,5,9,10}\<close> the claim counts two disjoint and three excess genes. The walk counts
  three disjoint genes and two excess genes: gene 8 is met while the other list still holds
  9 and 10.
\<close>

theorem distance_classification_counterexample:
  "\<not> (case distance_counters (genes_of 1 [1, 2, 3, 5, 8]) (genes_of 1 [1, 2, 4, 5, 9, 10]) of
        (nb_disjoint_genes, nb_excess_genes, nb_matching_genes, sum_weight_difference) \<Rightarrow>
          nb_disjoint_genes = 2 \<and> nb_excess_genes = 3)"
  using scenario_counters [of 1] by simp

text \<open>
  C2, as amended: for gene lists sorted by innovation number, \<open>distance_to\<close> is
  \<open>c1 * excess / N + c2 * disjoint / N + c3 * avg_weight_diff\<close> with
  \<open>N = max (|A.genes|, |B.genes|)\<close>, the counts being those of the specification's
  classification, and it is 0 whenever \<open>N \<le> 4\<close>. For the innovation numbers
  \<open>{1,2,3,5,8}\<close> and \<open>{1,2,4,5,9,10}\<close> the matching genes are \<open>{1,2,5}\<close>, the disjoint
  genes \<open>{3,4,8}\<close>, the excess genes \<open>{9,10}\<close>, and with equal weights and
  \<open>c1 = c2 = c3 = 1\<close> the distance is \<open>2/6 + 3/6 = 0.833...\<close>.
\<close>

theorem distance_to_formula:
  "(innov_sorted (m_genes a) \<and> innov_sorted (m_genes b) \<longrightarrow>
      distance_to p a b = spec_distance p (m_genes a) (m_genes b))
   \<and> (max (length (m_genes a)) (length (m_genes b)) \<le> 4 \<longrightarrow> distance_to p a b = Fin 0)
   \<and> distance_counters (genes_of w [1, 2, 3, 5, 8]) (genes_of w [1, 2, 4, 5, 9, 10])
       = (3, 2, 3, 0)
   \<and> map innov_num (filter (\<lambda>x. is_matching x (genes_of w [1, 2, 4, 5, 9, 10]))
        (genes_of w [1, 2, 3, 5, 8])) = [1, 2, 5]
   \<and> map innov_num (filter (\<lambda>x. is_disjoint x (genes_of w [1, 2, 4, 5, 9, 10]))
        (genes_of w [1, 2, 3, 5, 8])) = [3, 8]
   \<and> map innov_num (filter (\<lambda>x. is_disjoint x (genes_of w [1, 2, 3, 5, 8]))
        (genes_of w [1, 2, 4, 5, 9, 10])) = [4]
   \<and> map innov_num (filter (\<lambda>x. is_excess x (genes_of w [1, 2, 4, 5, 9, 10]))
        (genes_of w [1, 2, 3, 5, 8])) = []
   \<and> map innov_num (filter (\<lambda>x. is_excess x (genes_of w [1, 2, 3, 5, 8]))
        (genes_of w [1, 2, 4, 5, 9, 10])) = [9, 10]
   \<and> distance_to unit_params (scenario_genome w [1, 2, 3, 5, 8])
        (scenario_genome w [1, 2, 4, 5, 9, 10]) = Fin (2 / 6 + 3 / 6)"
proof (intro conjI impI)
  assume "innov_sorted (m_genes a) \<and> innov_sorted (m_genes b)"
  then show "distance_to p a b = spec_distance p (m_genes a) (m_genes b)"
    by (simp add: distance_to_def spec_distance_def distance_counters_refines Let_def)
next
  assume "max (length (m_genes a)) (length (m_genes b)) \<le> 4"
  then show "distance_to p a b = Fin 0"
    by (simp add: distance_to_def Let_def)
next
  show "distance_to unit_params (scenario_genome w [1, 2, 3, 5, 8])
        (scenario_genome w [1, 2, 4, 5, 9, 10]) = Fin (2 / 6 + 3 / 6)"
    using scenario_counters [of w]
    by (simp add: distance_to_def scenario_genome_def unit_params_def genes_of_def)
next
  show "distance_counters (genes_of w [1, 2, 3, 5, 8]) (genes_of w [1, 2, 4, 5, 9, 10])
       = (3, 2, 3, 0)"
    by (rule scenario_counters)
qed (simp_all add: genes_of_def mk_gene_def is_matching_def is_disjoint_def is_excess_def)

text \<open>The formula at the scenario, and a pair of small genomes.\<close>

theorem distance_to_formula_witness:
  "innov_sorted (m_genes (scenario_genome 1 [1, 2, 3, 5, 8]))
   \<and> innov_sorted (m_genes (scenario_genome 1 [1, 2, 4, 5, 9, 10]))
   \<and> spec_distance unit_params (m_genes (scenario_genome 1 [1, 2, 3, 5, 8]))
       (m_genes (scenario_genome 1 [1, 2, 4, 5, 9, 10])) = Fin (5 / 6)
   \<and> distance_to unit_params (scenario_genome 1 [1, 2, 3, 5, 8])
       (scenario_genome 1 [1, 2, 4, 5, 9, 10]) = Fin (5 / 6)
   \<and> distance_to unit_params (scenario_genome 1 [1, 2, 3]) (scenario_genome 1 [4]) = Fin 0"
proof -
  have s: "innov_sorted (m_genes (scenario_genome 1 [1, 2, 3, 5, 8]))"
    "innov_sorted (m_genes (scenario_genome 1 [1, 2, 4, 5, 9, 10]))"
    by (simp_all add: scenario_genome_def genes_of_sorted)
  have small: "max (length (m_genes (scenario_genome 1 [1, 2, 3])))
                   (length (m_genes (scenario_genome 1 [4]))) \<le> 4"
    by (simp add: scenario_genome_def genes_of_def)
  note t = distance_to_formula [of "scenario_genome 1 [1, 2, 3, 5, 8]"
      "scenario_genome 1 [1, 2, 4, 5, 9, 10]" unit_params 1]
  note u = distance_to_formula [of "scenario_genome 1 [1, 2, 3]" "scenario_genome 1 [4]"
      unit_params 1]
  from t s have eq: "distance_to unit_params (scenario_genome 1 [1, 2, 3, 5, 8])
       (scenario_genome 1 [1, 2, 4, 5, 9, 10])
     = spec_distance unit_params (m_genes (scenario_genome 1 [1, 2, 3, 5, 8]))
       (m_genes (scenario_genome 1 [1, 2, 4, 5, 9, 10]))"
    by blast
  from t have dv: "distance_to unit_params (scenario_genome 1 [1, 2, 3, 5, 8])
       (scenario_genome 1 [1, 2, 4, 5, 9, 10]) = Fin (2 / 6 + 3 / 6)"
    by blast
  from eq dv have "spec_distance unit_params (m_genes (scenario_genome 1 [1, 2, 3, 5, 8]))
       (m_genes (scenario_genome 1 [1, 2, 4, 5, 9, 10])) = Fin (5 / 6)"
    by simp
  moreover from dv have "distance_to unit_params (scenario_genome 1 [1, 2, 3, 5, 8])
       (scenario_genome 1 [1, 2, 4, 5, 9, 10]) = Fin (5 / 6)"
    by simp
  moreover from u small
  have "distance_to unit_params (scenario_genome 1 [1, 2, 3]) (scenario_genome 1 [4]) = Fin 0"
    by blast
  ultimately show ?thesis using s by simp
qed

section \<open>Distance of genomes without a common innovation number\<close>

text \<open>The walk never lowers the number of matching genes, and as long as that number
  stands the sum of the weight differences stands too: when the quotient is taken with no
  matching gene, the sum is zero as well.\<close>

lemma walk_sum_unchanged:
  "distance_walk xs ys d m s = (d', m', s', r1, r2) \<Longrightarrow> m \<le> m' \<and> (m' = m \<longrightarrow> s' = s)"
proof (induction xs ys d m s rule: distance_walk.induct)
  case (1 a as b bs d m s)
  show ?case
  proof (cases "innov_num a = innov_num b")
    case True
    with "1.prems" have "distance_walk as bs d (m + 1) (s + \<bar>weight a - weight b\<bar>)
          = (d', m', s', r1, r2)"
      by simp
    from "1.IH"(1) [OF True this] show ?thesis by simp
  next
    case ne: False
    show ?thesis
    proof (cases "innov_num a < innov_num b")
      case True
      with ne "1.prems" have "distance_walk as (b # bs) (d + 1) m s = (d', m', s', r1, r2)"
        by simp
      from "1.IH"(2) [OF ne True this] show ?thesis .
    next
      case False
      with ne "1.prems" have "distance_walk (a # as) bs (d + 1) m s = (d', m', s', r1, r2)"
        by simp
      from "1.IH"(3) [OF ne False this] show ?thesis .
    qed
  qed
qed simp_all

lemma walk_no_match:
  "innov_num ` set xs \<inter> innov_num ` set ys = {} \<Longrightarrow>
   \<exists>d' r1 r2. distance_walk xs ys d m s = (d', m, s, r1, r2)"
proof (induction xs ys d m s rule: distance_walk.induct)
  case (1 a as b bs d m s)
  from "1.prems" have ne: "innov_num a \<noteq> innov_num b"
    by auto
  show ?case
  proof (cases "innov_num a < innov_num b")
    case True
    from "1.prems" have "innov_num ` set as \<inter> innov_num ` set (b # bs) = {}"
      by auto
    from "1.IH"(2) [OF ne True this] show ?thesis
      using ne True by simp
  next
    case False
    from "1.prems" have "innov_num ` set (a # as) \<inter> innov_num ` set bs = {}"
      by auto
    from "1.IH"(3) [OF ne False this] show ?thesis
      using ne False by simp
  qed
qed simp_all

text \<open>
  C10: for two genomes with more than 4 genes each and no innovation number in common,
  the number of matching genes is zero when \<open>distance_to\<close> divides by it: the average
  weight difference, and with it the distance that \<open>is_compatible_with\<close> compares, is the
  result of a division by zero. (So a distance that is a number, for genomes of this size,
  needs a common innovation number.)
\<close>

theorem distance_without_shared_innovation:
  assumes "4 < length (m_genes a)" and "4 < length (m_genes b)"
    and "innov_num ` set (m_genes a) \<inter> innov_num ` set (m_genes b) = {}"
  shows "distance_to p a b = NaN \<and> \<not> is_compatible_with p a b"
proof -
  from walk_no_match [OF assms(3), of 0 0 0] obtain d' r1 r2 where
    "distance_walk (m_genes a) (m_genes b) 0 0 0 = (d', 0, 0, r1, r2)"
    by blast
  then have "distance_to p a b = NaN"
    using assms(1) by (simp add: distance_to_def distance_counters_def Let_def)
  then show ?thesis
    by (simp add: is_compatible_with_def)
qed

text \<open>Two genomes of five genes, with the innovation numbers 1 to 5 and 6 to 10.\<close>

theorem distance_without_shared_innovation_witness:
  "4 < length (m_genes (scenario_genome 1 [1, 2, 3, 4, 5]))
   \<and> 4 < length (m_genes (scenario_genome 1 [6, 7, 8, 9, 10]))
   \<and> innov_num ` set (m_genes (scenario_genome 1 [1, 2, 3, 4, 5]))
       \<inter> innov_num ` set (m_genes (scenario_genome 1 [6, 7, 8, 9, 10])) = {}
   \<and> distance_to unit_params (scenario_genome 1 [1, 2, 3, 4, 5])
       (scenario_genome 1 [6, 7, 8, 9, 10]) = NaN
   \<and> \<not> is_compatible_with unit_params (scenario_genome 1 [1, 2, 3, 4, 5])
       (scenario_genome 1 [6, 7, 8, 9, 10])"
proof -
  have h1: "4 < length (m_genes (scenario_genome 1 [1, 2, 3, 4, 5]))"
    and h2: "4 < length (m_genes (scenario_genome 1 [6, 7, 8, 9, 10]))"
    and h3: "innov_num ` set (m_genes (scenario_genome 1 [1, 2, 3, 4, 5]))
       \<inter> innov_num ` set (m_genes (scenario_genome 1 [6, 7, 8, 9, 10])) = {}"
    by (simp_all add: scenario_genome_def genes_of_def mk_gene_def)
  from distance_without_shared_innovation [OF h1 h2 h3, of unit_params] h1 h2 h3
  show ?thesis by simp
qed

section \<open>The champion of a population\<close>

lemma champion_scan_max:
  assumes "champion_scan pop best champ = r"
    and "case champ of None \<Rightarrow> True | Some c \<Rightarrow> m_fitness c = best \<and> c \<in> S"
    and "\<forall>g\<in>S. m_fitness g \<le> best \<or> champ = None"
    and "(\<exists>g\<in>set pop. best < m_fitness g) \<or> champ \<noteq> None"
  shows "\<exists>c. r = Some c \<and> c \<in> S \<union> set pop
           \<and> (\<forall>g\<in>set pop. m_fitness g \<le> m_fitness c)
           \<and> best \<le> m_fitness c"
  using assms
proof (induction pop arbitrary: best champ S)
  case Nil
  then show ?case by (auto split: option.splits)
next
  case (Cons geno rest)
  show ?case
  proof (cases "m_fitness geno > best")
    case True
    from Cons.prems(1) True have r: "champion_scan rest (m_fitness geno) (Some geno) = r"
      by simp
    have "\<exists>c. r = Some c \<and> c \<in> {geno} \<union> set rest
           \<and> (\<forall>g\<in>set rest. m_fitness g \<le> m_fitness c) \<and> m_fitness geno \<le> m_fitness c"
      by (rule Cons.IH [OF r]) auto
    then show ?thesis using True by auto
  next
    case False
    from Cons.prems(1) False have r: "champion_scan rest best champ = r"
      by simp
    from Cons.prems(4) False have h4: "(\<exists>g\<in>set rest. best < m_fitness g) \<or> champ \<noteq> None"
      by auto
    from Cons.IH [OF r Cons.prems(2) Cons.prems(3) h4] obtain c where
      c: "r = Some c" "c \<in> S \<union> set rest" "\<forall>g\<in>set rest. m_fitness g \<le> m_fitness c"
         "best \<le> m_fitness c"
      by blast
    with False show ?thesis by auto
  qed
qed

text \<open>The function of \<open>base_neat.cpp\<close> returns a genome of maximal fitness as soon as one
  fitness of the population is above the starting value \<open>- max()\<close>.\<close>

lemma get_current_best_genome_max:
  assumes "\<exists>g\<in>set population. - DBL_MAX < m_fitness g"
  shows "\<exists>c. get_current_best_genome population = Some c \<and> c \<in> set population
           \<and> (\<forall>g\<in>set population. m_fitness g \<le> m_fitness c)"
proof -
  have "\<exists>c. champion_scan population (- DBL_MAX) None = Some c \<and> c \<in> {} \<union> set population
           \<and> (\<forall>g\<in>set population. m_fitness g \<le> m_fitness c) \<and> - DBL_MAX \<le> m_fitness c"
    by (rule champion_scan_max [OF refl]) (use assms in auto)
  then show ?thesis
    unfolding get_current_best_genome_def by blast
qed

lemma DBL_MIN_pos: "0 < DBL_MIN"
  by (simp add: DBL_MIN_def)

text \<open>
  C8, evaluated where the code leaves the claim: for the population of one genome of
  fitness \<open>-1\<close> the function of the second driver source, which starts from \<open>min()\<close>, keeps
  the null champion and dereferences it; the function of \<open>base_neat.cpp\<close> returns the
  genome, and keeps the null champion only for a fitness as low as its starting value
  \<open>- max()\<close>.
\<close>

theorem champion_of_negative_population:
  "get_current_best_genome_part_001 [(genome_new unit_params)\<lparr>m_fitness := - 1\<rparr>] = None
   \<and> get_current_best_genome [(genome_new unit_params)\<lparr>m_fitness := - DBL_MAX\<rparr>] = None
   \<and> (\<exists>c. get_current_best_genome [(genome_new unit_params)\<lparr>m_fitness := - 1\<rparr>] = Some c)"
proof -
  have "\<not> - 1 > DBL_MIN"
    using DBL_MIN_pos by linarith
  moreover have "- 1 > - DBL_MAX"
    by (simp add: DBL_MAX_def)
  ultimately show ?thesis
    by (simp add: get_current_best_genome_part_001_def get_current_best_genome_def)
qed

section \<open>Moved genomes and the saved driver\<close>

lemma saved_stream:
  "helper_serialize_base_neat genome_stream_ops saved_driver =
     TNat 1 # TNat 7 # TReal 3 # TBool True # saved_tail"
  by (simp add: helper_serialize_base_neat_def genome_stream_ops_def saved_driver_def
      genome_serialize_def gene_tokens_def add_gene_def genome_new_def unit_params_def mk_gene_def
      BIAS_ID_def saved_tail_def)

lemma saved_best:
  "m_best_genome_ever saved_driver =
     Some \<lparr>m_number_of_inputs = 1, m_number_of_outputs = 1,
           m_genes = [mk_gene 0 0 2 (1 / 4), mk_gene 1 1 2 (1 / 2)],
           m_known_neuron_ids = [0, 1, 2], m_fitness = 39 / 10\<rparr>"
  by (simp add: saved_driver_def add_gene_def genome_new_def unit_params_def mk_gene_def
      BIAS_ID_def)

lemma restored_stream:
  "helper_deserialize_base_neat genome_stream_ops fresh_driver
     (TNat 1 # TNat 7 # TReal 3 # TBool True # saved_tail) = Some (restored_driver, [NL])"
  by (simp add: helper_deserialize_base_neat_def genome_stream_ops_def fresh_driver_def
      get_nat_def get_real_def get_bool_def genome_deserialize_def get_gene_def
      genome_new_def genome_move_def add_gene_def unit_params_def mk_gene_def BIAS_ID_def
      numeral_2_eq_2 saved_tail_def restored_driver_def)

text \<open>
  C4, evaluated where the code leaves the claim: the saved driver's best genome ever has
  the fitness 3.9; the driver that has read the saved stream holds the same genes, the same
  next species id and age, and a best genome ever of fitness 0.
\<close>

theorem round_trip_loses_best_fitness:
  "map_option m_fitness (m_best_genome_ever saved_driver) = Some (39 / 10)
   \<and> map_option (\<lambda>(d, rest). map_option m_fitness (m_best_genome_ever d))
        (helper_deserialize_base_neat genome_stream_ops fresh_driver
           (helper_serialize_base_neat genome_stream_ops saved_driver)) = Some (Some 0)
   \<and> map_option (\<lambda>(d, rest). map_option m_genes (m_best_genome_ever d))
        (helper_deserialize_base_neat genome_stream_ops fresh_driver
           (helper_serialize_base_neat genome_stream_ops saved_driver))
       = Some (map_option m_genes (m_best_genome_ever saved_driver))"
  unfolding saved_stream restored_stream saved_best
  by (simp add: restored_driver_def)

lemma deserialized_best_is_moved:
  assumes "helper_deserialize_base_neat ops d
             (TNat sid # TNat age # TReal thr # TBool True # ts) = Some (d', rest)"
  shows "\<exists>b. m_best_genome_ever d' = Some (genome_move b)"
  using assms
  by (fastforce simp: helper_deserialize_base_neat_def get_nat_def get_real_def get_bool_def
      Let_def split: Option.bind_splits)

text \<open>
  C9: a genome move-constructed from \<open>g\<close> has the fitness 0 whatever the fitness of \<open>g\<close>;
  the genes and the known neurons are those of \<open>g\<close>. In particular, when the stream
  announces a best genome ever, the one that \<open>helper_deserialize_base_neat\<close> leaves in the
  driver has the fitness 0, whatever the stream operators of the genome read.
\<close>

theorem move_constructor_resets_fitness:
  "m_fitness (genome_move g) = 0
   \<and> m_genes (genome_move g) = m_genes g
   \<and> m_known_neuron_ids (genome_move g) = m_known_neuron_ids g
   \<and> (helper_deserialize_base_neat ops d
         (TNat sid # TNat age # TReal thr # TBool True # ts) = Some (d', rest)
       \<longrightarrow> (\<exists>b. m_best_genome_ever d' = Some b \<and> m_fitness b = 0))"
proof (intro conjI impI)
  assume "helper_deserialize_base_neat ops d
         (TNat sid # TNat age # TReal thr # TBool True # ts) = Some (d', rest)"
  from deserialized_best_is_moved [OF this]
  show "\<exists>b. m_best_genome_ever d' = Some b \<and> m_fitness b = 0"
    by (auto simp: genome_move_def)
qed (simp_all add: genome_move_def)

text \<open>The new driver reading the saved stream, and the move of a genome of fitness 3.9.\<close>

theorem move_constructor_resets_fitness_witness:
  "helper_deserialize_base_neat genome_stream_ops fresh_driver
     (TNat 1 # TNat 7 # TReal 3 # TBool True # saved_tail) = Some (restored_driver, [NL])
   \<and> (\<exists>b. m_best_genome_ever restored_driver = Some b \<and> m_fitness b = 0)
   \<and> m_fitness (genome_move ((genome_new unit_params)\<lparr>m_fitness := 39 / 10\<rparr>)) = 0"
  using restored_stream
    move_constructor_resets_fitness [where g = "(genome_new unit_params)\<lparr>m_fitness := 39 / 10\<rparr>"
      and ops = genome_stream_ops and d = fresh_driver and sid = 1 and age = 7 and thr = 3
      and ts = saved_tail and d' = restored_driver and rest = "[NL]"]
  by blast

section \<open>Splitting a gene\<close>

lemma shuffle_set: "set (fst (shuffle xs e)) = set xs"
proof (induction xs arbitrary: e)
  case Nil
  show ?case by simp
next
  case (Cons x xs)
  obtain rest e1 where r: "shuffle xs e = (rest, e1)"
    by (cases "shuffle xs e")
  obtain i e2 where u: "uniform_int 0 (length rest) e1 = (i, e2)"
    by (cases "uniform_int 0 (length rest) e1")
  have "set rest = set xs"
    using Cons.IH [of e] r by simp
  moreover have "set (take i rest) \<union> set (drop i rest) = set rest"
    by (metis append_take_drop_id set_append)
  ultimately show ?case
    using r u by auto
qed

lemma find_innovation_Some:
  assumes "find_innovation p k f t = Some ex"
  shows "i_type ex = k" and "i_from ex = f" and "i_to ex = t"
  using assms by (auto simp: find_innovation_def find_Some_iff)

lemma add_gene_genes: "m_genes (add_gene x g) = m_genes g @ [x]"
  by (simp add: add_gene_def Let_def)

lemma add_neuron_no_candidate:
  assumes "\<not> list_ex enabled (m_genes g)"
  shows "mutate_add_neuron g n s = (False, g, n, snd (shuffle [0..<length (m_genes g)] s))"
proof -
  obtain cs s' where sh: "shuffle [0..<length (m_genes g)] s = (cs, s')"
    by (cases "shuffle [0..<length (m_genes g)] s")
  have "set cs = {0..<length (m_genes g)}"
    using shuffle_set [of "[0..<length (m_genes g)]" s] sh by simp
  with assms have "find (\<lambda>idx. enabled (m_genes g ! idx)) cs = None"
    by (auto simp: find_None_iff list_ex_iff)
  with sh show ?thesis
    by (simp add: mutate_add_neuron_def)
qed

lemma add_neuron_candidate:
  assumes "list_ex enabled (m_genes g)"
  obtains sel_idx cs s' where "shuffle [0..<length (m_genes g)] s = (cs, s')"
    and "find (\<lambda>idx. enabled (m_genes g ! idx)) cs = Some sel_idx"
    and "sel_idx < length (m_genes g)" and "enabled (m_genes g ! sel_idx)"
proof -
  obtain cs s' where sh: "shuffle [0..<length (m_genes g)] s = (cs, s')"
    by (cases "shuffle [0..<length (m_genes g)] s")
  have cs: "set cs = {0..<length (m_genes g)}"
    using shuffle_set [of "[0..<length (m_genes g)]" s] sh by simp
  from assms obtain i where "i < length (m_genes g)" "enabled (m_genes g ! i)"
    by (auto simp: list_ex_iff in_set_conv_nth)
  with cs have "find (\<lambda>idx. enabled (m_genes g ! idx)) cs \<noteq> None"
    by (auto simp: find_None_iff)
  then obtain sel_idx where f: "find (\<lambda>idx. enabled (m_genes g ! idx)) cs = Some sel_idx"
    by auto
  then have "sel_idx \<in> set cs" "enabled (m_genes g ! sel_idx)"
    by (auto simp: find_Some_iff)
  with cs have "sel_idx < length (m_genes g)" by simp
  from sh f this \<open>enabled (m_genes g ! sel_idx)\<close> show thesis
    by (rule that)
qed

text \<open>
  C5: when the genome has an enabled gene, \<open>mutate_add_neuron\<close> succeeds; it disables an
  enabled gene \<open>(from, to, w)\<close> and appends exactly two genes, \<open>(from, h)\<close> and \<open>(h, to)\<close>,
  both of weight \<open>w\<close>. When the pool knows a new-neuron innovation for \<open>(from, to)\<close>, \<open>h\<close>
  and the two innovation numbers are those of that record and the pool is unchanged;
  otherwise \<open>h\<close> is the next hidden neuron id of the pool and the innovation numbers are
  the next two of the pool, which are then used up. When no gene is enabled the mutation
  fails and leaves the genome (and the driver) unchanged.
\<close>

theorem add_neuron_splits_gene:
  "(list_ex enabled (m_genes g) \<longrightarrow>
      (\<exists>sel_idx i1 i2 h g' n' s'.
         mutate_add_neuron g n s = (True, g', n', s')
         \<and> sel_idx < length (m_genes g) \<and> enabled (m_genes g ! sel_idx)
         \<and> m_genes g' =
             (m_genes g)[sel_idx := (m_genes g ! sel_idx)\<lparr>enabled := False\<rparr>]
             @ [mk_gene i1 (from_id (m_genes g ! sel_idx)) h (weight (m_genes g ! sel_idx)),
                mk_gene i2 h (to_id (m_genes g ! sel_idx)) (weight (m_genes g ! sel_idx))]
         \<and> (case find_innovation (innov_pool n) NEW_NEURON (from_id (m_genes g ! sel_idx))
                    (to_id (m_genes g ! sel_idx)) of
               Some ex \<Rightarrow>
                 h = i_new_neuron_id ex \<and> i1 = i_innov_num ex \<and> i2 = i_innov_num_2 ex
                 \<and> n' = n
             | None \<Rightarrow>
                 h = m_next_hidden_neuron_id (innov_pool n)
                 \<and> m_next_hidden_neuron_id (innov_pool n') = h + 1
                 \<and> i1 = m_next_innovation (innov_pool n) \<and> i2 = i1 + 1
                 \<and> m_next_innovation (innov_pool n') = i1 + 2)))
   \<and> (\<not> list_ex enabled (m_genes g) \<longrightarrow>
        (\<exists>s'. mutate_add_neuron g n s = (False, g, n, s')))"
proof (intro conjI impI)
  assume "\<not> list_ex enabled (m_genes g)"
  then show "\<exists>s'. mutate_add_neuron g n s = (False, g, n, s')"
    by (simp add: add_neuron_no_candidate)
next
  assume "list_ex enabled (m_genes g)"
  then obtain sel_idx cs s' where sh: "shuffle [0..<length (m_genes g)] s = (cs, s')"
    and f: "find (\<lambda>idx. enabled (m_genes g ! idx)) cs = Some sel_idx"
    and lt: "sel_idx < length (m_genes g)" and en: "enabled (m_genes g ! sel_idx)"
    by (rule add_neuron_candidate)
  let ?sel = "m_genes g ! sel_idx"
  show "\<exists>sel_idx i1 i2 h g' n' s'.
         mutate_add_neuron g n s = (True, g', n', s')
         \<and> sel_idx < length (m_genes g) \<and> enabled (m_genes g ! sel_idx)
         \<and> m_genes g' =
             (m_genes g)[sel_idx := (m_genes g ! sel_idx)\<lparr>enabled := False\<rparr>]
             @ [mk_gene i1 (from_id (m_genes g ! sel_idx)) h (weight (m_genes g ! sel_idx)),
                mk_gene i2 h (to_id (m_genes g ! sel_idx)) (weight (m_genes g ! sel_idx))]
         \<and> (case find_innovation (innov_pool n) NEW_NEURON (from_id (m_genes g ! sel_idx))
                    (to_id (m_genes g ! sel_idx)) of
               Some ex \<Rightarrow>
                 h = i_new_neuron_id ex \<and> i1 = i_innov_num ex \<and> i2 = i_innov_num_2 ex
                 \<and> n' = n
             | None \<Rightarrow>
                 h = m_next_hidden_neuron_id (innov_pool n)
                 \<and> m_next_hidden_neuron_id (innov_pool n') = h + 1
                 \<and> i1 = m_next_innovation (innov_pool n) \<and> i2 = i1 + 1
                 \<and> m_next_innovation (innov_pool n') = i1 + 2)"
  proof (cases "find_innovation (innov_pool n) NEW_NEURON (from_id ?sel) (to_id ?sel)")
    case None
    obtain ok g' n' s'' where res: "mutate_add_neuron g n s = (ok, g', n', s'')"
      by (cases "mutate_add_neuron g n s")
    let ?i1 = "m_next_innovation (innov_pool n)"
    let ?h = "m_next_hidden_neuron_id (innov_pool n)"
    from res sh f lt None have ok: "ok"
      and genes: "m_genes g' = (m_genes g)[sel_idx := ?sel\<lparr>enabled := False\<rparr>]
             @ [mk_gene ?i1 (from_id ?sel) ?h (weight ?sel),
                mk_gene (?i1 + 1) ?h (to_id ?sel) (weight ?sel)]"
      and pool: "m_next_hidden_neuron_id (innov_pool n') = ?h + 1"
        "m_next_innovation (innov_pool n') = ?i1 + 2"
      by (auto simp: mutate_add_neuron_def Let_def add_gene_genes next_hidden_neuron_id_def
          next_innovation_def register_gene_def register_innovation_def
          split: option.splits)
    show ?thesis
      apply (rule exI [of _ sel_idx], rule exI [of _ ?i1], rule exI [of _ "?i1 + 1"])
      apply (rule exI [of _ ?h], rule exI [of _ g'], rule exI [of _ n'], rule exI [of _ s''])
      using res ok genes pool lt en None apply simp
      done
  next
    case (Some ex)
    obtain ok g' n' s'' where res: "mutate_add_neuron g n s = (ok, g', n', s'')"
      by (cases "mutate_add_neuron g n s")
    from res sh f lt Some find_innovation_Some [OF Some] have ok: "ok" and n': "n' = n"
      and genes: "m_genes g' = (m_genes g)[sel_idx := ?sel\<lparr>enabled := False\<rparr>]
             @ [mk_gene (i_innov_num ex) (from_id ?sel) (i_new_neuron_id ex) (weight ?sel),
                mk_gene (i_innov_num_2 ex) (i_new_neuron_id ex) (to_id ?sel) (weight ?sel)]"
      by (auto simp: mutate_add_neuron_def Let_def add_gene_genes)
    show ?thesis
      apply (rule exI [of _ sel_idx], rule exI [of _ "i_innov_num ex"])
      apply (rule exI [of _ "i_innov_num_2 ex"], rule exI [of _ "i_new_neuron_id ex"])
      apply (rule exI [of _ g'], rule exI [of _ n'], rule exI [of _ s''])
      using res ok genes n' lt en Some apply simp
      done
  qed
qed


text \<open>The split of the gene \<open>(2, 5)\<close> of weight 0.7, and a genome without enabled gene.\<close>

lemma split_result:
  "case mutate_add_neuron split_genome split_neat zero_engine of (ok, g, n, s) \<Rightarrow>
     ok \<and> m_genes g = [(mk_gene 0 0 5 (1 / 2))\<lparr>enabled := False\<rparr>,
                        (mk_gene 1 2 5 (7 / 10))\<lparr>enabled := False\<rparr>,
                        mk_gene 2 2 6 (7 / 10), mk_gene 3 6 5 (7 / 10)]
     \<and> m_known_neuron_ids g = [0, 1, 2, 3, 4, 5, 6]"
  by (simp add: mutate_add_neuron_def split_genome_def split_neat_def zero_engine_def
      uniform_int_def upt_rec mk_gene_def find_innovation_def next_hidden_neuron_id_def
      next_innovation_def register_gene_def register_innovation_def find_gene_def
      new_neuron_innovation_def add_gene_def Let_def)


lemma disabled_has_no_candidate: "\<not> list_ex enabled (m_genes disabled_genome)"
  by (simp add: disabled_genome_def mk_gene_def)

lemma split_has_candidate: "list_ex enabled (m_genes split_genome)"
  by (simp add: split_genome_def mk_gene_def)

theorem add_neuron_splits_gene_witness:
  "list_ex enabled (m_genes split_genome)
   \<and> (\<exists>g' n' s'. mutate_add_neuron split_genome split_neat zero_engine = (True, g', n', s')
        \<and> m_genes g' = [(mk_gene 0 0 5 (1 / 2))\<lparr>enabled := False\<rparr>,
                        (mk_gene 1 2 5 (7 / 10))\<lparr>enabled := False\<rparr>,
                        mk_gene 2 2 6 (7 / 10), mk_gene 3 6 5 (7 / 10)])
   \<and> \<not> list_ex enabled (m_genes disabled_genome)
   \<and> (\<exists>s'. mutate_add_neuron disabled_genome split_neat zero_engine
              = (False, disabled_genome, split_neat, s'))"
proof -
  from add_neuron_splits_gene [of split_genome split_neat zero_engine] split_has_candidate
  obtain g' n' s' where "mutate_add_neuron split_genome split_neat zero_engine = (True, g', n', s')"
    by blast
  with split_result have "\<exists>g' n' s'.
        mutate_add_neuron split_genome split_neat zero_engine = (True, g', n', s')
        \<and> m_genes g' = [(mk_gene 0 0 5 (1 / 2))\<lparr>enabled := False\<rparr>,
                        (mk_gene 1 2 5 (7 / 10))\<lparr>enabled := False\<rparr>,
                        mk_gene 2 2 6 (7 / 10), mk_gene 3 6 5 (7 / 10)]"
    by simp
  moreover from add_neuron_splits_gene [of disabled_genome split_neat zero_engine]
    disabled_has_no_candidate
  have "\<exists>s'. mutate_add_neuron disabled_genome split_neat zero_engine
              = (False, disabled_genome, split_neat, s')"
    by blast
  ultimately show ?thesis
    using split_has_candidate disabled_has_no_candidate by blast
qed

section \<open>The tries of a random mutation\<close>

lemma retry_fails:
  "random_mutate (genome_new unit_params) (retry_neat\<lparr>rand_engine := zero_engine\<lparr>pos := k\<rparr>\<rparr>)
     zero_engine
   = Some (False, genome_new unit_params,
           retry_neat\<lparr>rand_engine := zero_engine\<lparr>pos := Suc k\<rparr>\<rparr>, zero_engine)"
  by (simp add: random_mutate_def retry_neat_def unit_params_def sum_all_mutation_weights_def
      uniform_int_def zero_engine_def select_mutation_def with_static_def mutate_remove_gene_def
      genome_new_def)

lemma retry_start: "retry_neat = retry_neat\<lparr>rand_engine := zero_engine\<lparr>pos := 0\<rparr>\<rparr>"
  by (simp add: retry_neat_def zero_engine_def)

text \<open>
  C7, evaluated where the code leaves the claim: for a genome without genes and parameters
  that select \<open>remove_gene\<close> only, every attempt fails; \<open>get_random_mutation\<close> calls
  \<open>random_mutate\<close> four times (the generator of the driver has delivered four draws) before
  it returns the genome.
\<close>

theorem random_mutation_attempts:
  "mutation_attempts 3 (genome_new unit_params) retry_neat zero_engine = Some 4
   \<and> map_option (\<lambda>(g, n, s). (g, pos (rand_engine n)))
        (get_random_mutation (genome_new unit_params) retry_neat zero_engine)
       = Some (genome_new unit_params, 4)"
proof -
  have "mutation_attempts 3 (genome_new unit_params)
          (retry_neat\<lparr>rand_engine := zero_engine\<lparr>pos := 0\<rparr>\<rparr>) zero_engine = Some 4"
    by (simp add: numeral_3_eq_3 retry_fails)
  moreover have "mutation_tries 3 (genome_new unit_params)
          (retry_neat\<lparr>rand_engine := zero_engine\<lparr>pos := 0\<rparr>\<rparr>) zero_engine
        = Some (genome_new unit_params,
                retry_neat\<lparr>rand_engine := zero_engine\<lparr>pos := 4\<rparr>\<rparr>, zero_engine)"
    by (simp add: numeral_3_eq_3 retry_fails)
  moreover have "genome_move (genome_new unit_params) = genome_new unit_params"
    by (simp add: genome_move_def genome_new_def)
  ultimately show ?thesis
    using retry_start by (simp add: get_random_mutation_def)
qed

section \<open>Innovation numbers of added links\<close>

lemma find_gene_Some:
  assumes "find_gene p f t = Some c"
  shows "from_id c = f" and "to_id c = t"
  using assms by (auto simp: find_gene_def find_Some_iff)

lemma find_append_Some: "find P xs = Some c \<Longrightarrow> find P (xs @ ys) = Some c"
  by (induction xs) (auto split: if_splits)

lemma find_gene_later:
  assumes "pool_later p p'" and "find_gene p f t = Some c"
  shows "find_gene p' f t = Some c"
proof -
  from assms(1) obtain zs where "m_all_genes p' = m_all_genes p @ zs"
    by (auto simp: pool_later_def prefix_def)
  with assms(2) show ?thesis
    by (simp add: find_gene_def find_append_Some)
qed

lemma find_append_None: "find P xs = None \<Longrightarrow> find P (xs @ ys) = find P ys"
  by (induction xs) (auto split: if_splits)

lemma find_gene_register:
  assumes "find_gene p (from_id x) (to_id x) = None"
  shows "find_gene (register_gene x p) (from_id x) (to_id x) = Some x"
proof -
  have "find (\<lambda>y. from_id y = from_id x \<and> to_id y = to_id x) (m_all_genes p @ [x]) = Some x"
    using assms by (simp add: find_gene_def find_append_None)
  with assms show ?thesis
    by (simp add: register_gene_def find_gene_def)
qed


lemma pool_later_refl: "pool_later p p"
  by (simp add: pool_later_def)

lemma pool_later_trans: "pool_later p q \<Longrightarrow> pool_later q r \<Longrightarrow> pool_later p r"
  by (auto simp: pool_later_def)

lemma pool_later_register_gene: "pool_later p (register_gene x p)"
  by (simp add: pool_later_def register_gene_def split: option.splits)

lemma genes_register_innovation: "m_all_genes (register_innovation i p) = m_all_genes p"
  by (simp add: register_innovation_def split: option.splits)

lemma counter_register_innovation:
  "m_next_innovation (register_innovation i p) = m_next_innovation p"
  by (simp add: register_innovation_def split: option.splits)

lemma counter_register_gene: "m_next_innovation (register_gene x p) = m_next_innovation p"
  by (simp add: register_gene_def split: option.splits)

lemma uniform_int_range:
  assumes "uniform_int lo hi e = (v, e')" and "lo \<le> hi"
  shows "lo \<le> v" and "v \<le> hi"
proof -
  have "ints e (pos e) mod (hi - lo + 1) < hi - lo + 1"
    by (rule mod_less_divisor) simp
  moreover from assms(1) have "v = lo + ints e (pos e) mod (hi - lo + 1)"
    by (simp add: uniform_int_def)
  ultimately show "lo \<le> v" and "v \<le> hi"
    using assms(2) by linarith+
qed

text \<open>The two ways in which \<open>mutate_add_link\<close> succeeds.\<close>

lemma add_link_cases:
  assumes "mutate_add_link g n = Some (True, g', n')"
  obtains (reuse) f t c w where "find_gene (innov_pool n) f t = Some c"
      and "g' = add_gene (c\<lparr>weight := w\<rparr>) g" and "innov_pool n' = innov_pool n"
      and "f \<in> set (m_known_neuron_ids g)" and "t \<in> set (m_known_neuron_ids g)"
    | (fresh) f t w where "find_gene (innov_pool n) f t = None"
      and "g' = add_gene (mk_gene (m_next_innovation (innov_pool n)) f t w) g"
      and "find_gene (innov_pool n') f t = Some (mk_gene (m_next_innovation (innov_pool n)) f t w)"
      and "m_next_innovation (innov_pool n') = Suc (m_next_innovation (innov_pool n))"
      and "pool_later (innov_pool n) (innov_pool n')"
      and "f \<in> set (m_known_neuron_ids g)" and "t \<in> set (m_known_neuron_ids g)"
proof -
  let ?ks = "m_known_neuron_ids g"
  from assms have len: "m_number_of_inputs g + 2 \<le> length ?ks"
    by (auto simp: mutate_add_link_def Let_def split: if_splits)
  obtain fr e1 where u1: "uniform_int 0 (length ?ks - 1) (rand_engine n) = (fr, e1)"
    by (cases "uniform_int 0 (length ?ks - 1) (rand_engine n)")
  obtain d e2 where u2: "uniform_int 0 (length ?ks - m_number_of_inputs g - 2) e1 = (d, e2)"
    by (cases "uniform_int 0 (length ?ks - m_number_of_inputs g - 2) e1")
  obtain w e3 where u3: "uniform_real (- initial_weight_perturbation (params n))
                       (initial_weight_perturbation (params n)) e2 = (w, e3)"
    by (cases "uniform_real (- initial_weight_perturbation (params n))
                       (initial_weight_perturbation (params n)) e2")
  let ?to = "d + m_number_of_inputs g + 1"
  let ?f = "?ks ! fr" and ?t = "?ks ! ?to"
  from uniform_int_range(2) [OF u1] len have "fr < length ?ks"
    by simp
  then have fk: "?f \<in> set ?ks" by simp
  from uniform_int_range(2) [OF u2] have "d \<le> length ?ks - m_number_of_inputs g - 2"
    by simp
  with len have "?to < length ?ks" by simp
  then have tk: "?t \<in> set ?ks" by simp
  from assms len u1 u2 have nl: "\<not> link_exists g ?f ?t"
    by (auto simp: mutate_add_link_def Let_def split: if_splits)
  show thesis
  proof (cases "find_gene (innov_pool n) ?f ?t")
    case (Some c)
    with assms len u1 u2 u3 nl have "g' = add_gene (c\<lparr>weight := w\<rparr>) g"
      and "innov_pool n' = innov_pool n"
      by (auto simp: mutate_add_link_def Let_def)
    with Some show thesis using fk tk by (rule reuse)
  next
    case None
    let ?x = "mk_gene (m_next_innovation (innov_pool n)) ?f ?t w"
    let ?p1 = "(innov_pool n)\<lparr>m_next_innovation := m_next_innovation (innov_pool n) + 1\<rparr>"
    from None assms len u1 u2 u3 nl have g': "g' = add_gene ?x g"
      and p': "innov_pool n' = register_innovation
                  (new_link_innovation (innov_num ?x) (from_id ?x) (to_id ?x))
                  (register_gene ?x ?p1)"
      by (auto simp: mutate_add_link_def Let_def next_innovation_def)
    have ft: "from_id ?x = ?f" "to_id ?x = ?t"
      by (simp_all add: mk_gene_def)
    from None have "find_gene ?p1 (from_id ?x) (to_id ?x) = None"
      by (simp add: find_gene_def mk_gene_def)
    then have "find_gene (register_gene ?x ?p1) (from_id ?x) (to_id ?x) = Some ?x"
      by (rule find_gene_register)
    then have fg: "find_gene (innov_pool n') ?f ?t = Some ?x"
      by (simp add: p' find_gene_def genes_register_innovation mk_gene_def)
    have cnt: "m_next_innovation (innov_pool n') = Suc (m_next_innovation (innov_pool n))"
      by (simp add: p' counter_register_innovation counter_register_gene)
    have "pool_later ?p1 (register_gene ?x ?p1)"
      by (rule pool_later_register_gene)
    then have pl: "pool_later (innov_pool n) (innov_pool n')"
      by (simp add: pool_later_def p' genes_register_innovation)
    from None g' fg cnt pl fk tk show thesis by (rule fresh)
  qed
qed

lemma add_link_canonical:
  assumes "mutate_add_link g n = Some (True, g', n')"
  shows "\<exists>c w. find_gene (innov_pool n') (from_id (last (m_genes g'))) (to_id (last (m_genes g')))
                 = Some c
               \<and> last (m_genes g') = c\<lparr>weight := w\<rparr>"
  using assms
proof (cases rule: add_link_cases)
  case (reuse f t c w)
  from reuse(1) have "from_id c = f" "to_id c = t"
    by (rule find_gene_Some)+
  with reuse show ?thesis
    by (auto simp: add_gene_genes)
next
  case (fresh f t w)
  have "mk_gene (m_next_innovation (innov_pool n)) f t w
        = (mk_gene (m_next_innovation (innov_pool n)) f t w)\<lparr>weight := w\<rparr>"
    by (simp add: mk_gene_def)
  with fresh show ?thesis
    by (auto simp: add_gene_genes mk_gene_def)
qed

text \<open>Every mutation leaves a later pool, so the pools of one run are later pools of each
  other in the order of the mutations.\<close>

lemma add_neuron_pool_later:
  assumes "mutate_add_neuron g n s = (ok, g', n', s')"
  shows "pool_later (innov_pool n) (innov_pool n')"
  using assms
  by (auto simp: mutate_add_neuron_def Let_def pool_later_def next_hidden_neuron_id_def
      next_innovation_def genes_register_innovation register_gene_def find_gene_def
      split: prod.splits option.splits)

lemma add_link_pool_later:
  assumes "mutate_add_link g n = Some (ok, g', n')"
  shows "pool_later (innov_pool n) (innov_pool n')"
  using assms
  by (auto simp: mutate_add_link_def Let_def pool_later_def
      next_innovation_def genes_register_innovation register_gene_def find_gene_def
      split: prod.splits option.splits if_splits)

lemma mutation_pool_later:
  assumes "apply_mutation op g n s = Some (ok, g', n', s')"
  shows "pool_later (innov_pool n) (innov_pool n')"
proof (cases op)
  case AddLink
  with assms show ?thesis
    by (auto simp: with_static_def split: prod.splits dest: add_link_pool_later)
next
  case AddNeuron
  with assms show ?thesis
    by (auto dest: add_neuron_pool_later)
qed (use assms in \<open>auto simp: with_static_def pool_later_def mutate_all_weights_def
      mutate_one_weight_def mutate_reset_weights_def mutate_remove_gene_def
      mutate_reenable_gene_def mutate_toggle_enable_def Let_def
      split: prod.splits if_splits\<close>)

text \<open>
  C1: when an \<open>add_link\<close> mutation on one genome and a later \<open>add_link\<close> mutation on
  another genome (later: the gene registry of the pool has only grown in between) create
  the same directed edge, the two genes carry the same innovation number. After the first
  call the pool holds a canonical gene for the edge, whose innovation number the gene of
  the first call carries; the gene of the later call is that canonical gene with another
  weight, and the later call leaves the pool as it is.
\<close>

theorem add_link_reuses_innovation:
  assumes "mutate_add_link g1 n1 = Some (True, g1', n1')"
    and "pool_later (innov_pool n1') (innov_pool n2)"
    and "mutate_add_link g2 n2 = Some (True, g2', n2')"
    and "from_id (last (m_genes g1')) = from_id (last (m_genes g2'))"
    and "to_id (last (m_genes g1')) = to_id (last (m_genes g2'))"
  shows "innov_num (last (m_genes g1')) = innov_num (last (m_genes g2'))
         \<and> (\<exists>c w1 w2.
               find_gene (innov_pool n1') (from_id (last (m_genes g1')))
                 (to_id (last (m_genes g1'))) = Some c
               \<and> last (m_genes g1') = c\<lparr>weight := w1\<rparr>
               \<and> last (m_genes g2') = c\<lparr>weight := w2\<rparr>
               \<and> innov_pool n2' = innov_pool n2)"
proof -
  let ?f = "from_id (last (m_genes g1'))" and ?t = "to_id (last (m_genes g1'))"
  from add_link_canonical [OF assms(1)] obtain c w1 where
    c: "find_gene (innov_pool n1') ?f ?t = Some c" and l1: "last (m_genes g1') = c\<lparr>weight := w1\<rparr>"
    by blast
  from find_gene_later [OF assms(2) c] have c2: "find_gene (innov_pool n2) ?f ?t = Some c" .
  from assms(3) have "\<exists>w2. last (m_genes g2') = c\<lparr>weight := w2\<rparr> \<and> innov_pool n2' = innov_pool n2"
  proof (cases rule: add_link_cases)
    case (reuse f t c' w)
    from reuse(1) have "from_id c' = f" "to_id c' = t"
      by (rule find_gene_Some)+
    with reuse(2) assms(4,5) have "f = ?f" "t = ?t"
      by (simp_all add: add_gene_genes)
    with reuse(1) c2 have "c' = c" by simp
    with reuse show ?thesis
      by (auto simp: add_gene_genes)
  next
    case (fresh f t w)
    from fresh(2) assms(4,5) have "f = ?f" "t = ?t"
      by (simp_all add: add_gene_genes mk_gene_def)
    with fresh(1) c2 show ?thesis by simp
  qed
  then obtain w2 where l2: "last (m_genes g2') = c\<lparr>weight := w2\<rparr>"
    and p2: "innov_pool n2' = innov_pool n2"
    by blast
  from l1 l2 have "innov_num (last (m_genes g1')) = innov_num (last (m_genes g2'))"
    by simp
  with c l1 l2 p2 show ?thesis by blast
qed


text \<open>Two genomes of one run that both receive the edge \<open>(1, 3)\<close>.\<close>

lemma dedup_first:
  "mutate_add_link dedup_genome_a dedup_neat
   = Some (True, add_gene (mk_gene 3 1 3 (2 / 10)) dedup_genome_a, dedup_neat_1)"
  by (simp add: mutate_add_link_def dedup_genome_a_def dedup_neat_def dedup_neat_1_def
      dedup_pool_def dedup_params_def unit_params_def one_engine_def uniform_int_def
      uniform_real_def link_exists_def mk_gene_def find_gene_def next_innovation_def
      register_gene_def register_innovation_def find_innovation_def new_link_innovation_def
      Let_def)

lemma dedup_second:
  "mutate_add_link dedup_genome_b dedup_neat_1
   = Some (True, add_gene (mk_gene 3 1 3 (5 / 10)) dedup_genome_b, dedup_neat_2)"
  by (simp add: mutate_add_link_def dedup_genome_b_def dedup_neat_def dedup_neat_1_def
      dedup_neat_2_def dedup_pool_def dedup_params_def unit_params_def one_engine_def
      uniform_int_def uniform_real_def link_exists_def mk_gene_def find_gene_def Let_def)

theorem add_link_reuses_innovation_witness:
  "mutate_add_link dedup_genome_a dedup_neat
     = Some (True, add_gene (mk_gene 3 1 3 (2 / 10)) dedup_genome_a, dedup_neat_1)
   \<and> pool_later (innov_pool dedup_neat_1) (innov_pool dedup_neat_1)
   \<and> mutate_add_link dedup_genome_b dedup_neat_1
     = Some (True, add_gene (mk_gene 3 1 3 (5 / 10)) dedup_genome_b, dedup_neat_2)
   \<and> from_id (last (m_genes (add_gene (mk_gene 3 1 3 (2 / 10)) dedup_genome_a))) = 1
   \<and> to_id (last (m_genes (add_gene (mk_gene 3 1 3 (2 / 10)) dedup_genome_a))) = 3
   \<and> from_id (last (m_genes (add_gene (mk_gene 3 1 3 (5 / 10)) dedup_genome_b))) = 1
   \<and> to_id (last (m_genes (add_gene (mk_gene 3 1 3 (5 / 10)) dedup_genome_b))) = 3
   \<and> innov_num (last (m_genes (add_gene (mk_gene 3 1 3 (2 / 10)) dedup_genome_a)))
     = innov_num (last (m_genes (add_gene (mk_gene 3 1 3 (5 / 10)) dedup_genome_b)))"
proof -
  have ends: "from_id (last (m_genes (add_gene (mk_gene 3 1 3 (2 / 10)) dedup_genome_a))) = 1"
    "to_id (last (m_genes (add_gene (mk_gene 3 1 3 (2 / 10)) dedup_genome_a))) = 3"
    "from_id (last (m_genes (add_gene (mk_gene 3 1 3 (5 / 10)) dedup_genome_b))) = 1"
    "to_id (last (m_genes (add_gene (mk_gene 3 1 3 (5 / 10)) dedup_genome_b))) = 3"
    by (simp_all add: add_gene_genes mk_gene_def)
  have later: "pool_later (innov_pool dedup_neat_1) (innov_pool dedup_neat_1)"
    by (rule pool_later_refl)
  from ends have same: "from_id (last (m_genes (add_gene (mk_gene 3 1 3 (2 / 10)) dedup_genome_a)))
      = from_id (last (m_genes (add_gene (mk_gene 3 1 3 (5 / 10)) dedup_genome_b)))"
    "to_id (last (m_genes (add_gene (mk_gene 3 1 3 (2 / 10)) dedup_genome_a)))
      = to_id (last (m_genes (add_gene (mk_gene 3 1 3 (5 / 10)) dedup_genome_b)))"
    by simp_all
  from add_link_reuses_innovation [OF dedup_first later dedup_second same]
  show ?thesis
    using dedup_first dedup_second later ends by blast
qed

section \<open>Mutations and the structure of the genome\<close>

lemma endpoints_known_keys:
  "endpoints_known g \<longleftrightarrow>
     (\<forall>k\<in>set (gene_keys (m_genes g)).
        fst (snd k) \<in> set (m_known_neuron_ids g) \<and> snd (snd k) \<in> set (m_known_neuron_ids g))"
  by (auto simp: endpoints_known_def gene_keys_def list_all_iff)

lemma innov_sorted_keys: "innov_sorted xs \<longleftrightarrow> sorted_wrt (<) (map fst (gene_keys xs))"
  by (simp add: innov_sorted_def gene_keys_def comp_def)

lemma gene_keys_update:
  assumes "innov_num y = innov_num (xs ! i)" "from_id y = from_id (xs ! i)"
    "to_id y = to_id (xs ! i)"
  shows "gene_keys (xs[i := y]) = gene_keys xs"
proof (cases "i < length xs")
  case True
  with assms show ?thesis
    by (simp add: gene_keys_def map_update list_update_same_conv)
next
  case False
  then have "xs[i := y] = xs"
    by (simp add: list_update_beyond)
  then show ?thesis by simp
qed

lemma gene_keys_perturb_all: "gene_keys (fst (perturb_all pw xs e)) = gene_keys xs"
proof (induction xs arbitrary: e)
  case Nil
  show ?case by simp
next
  case (Cons x xs)
  obtain r e1 where u: "uniform_real (- pw) pw e = (r, e1)"
    by (cases "uniform_real (- pw) pw e")
  obtain xs' e2 where p: "perturb_all pw xs e1 = (xs', e2)"
    by (cases "perturb_all pw xs e1")
  from Cons.IH [of e1] p have "gene_keys xs' = gene_keys xs"
    by simp
  with u p show ?case
    by (simp add: gene_keys_def)
qed

lemma gene_keys_reset_all: "gene_keys (fst (reset_all pw xs e)) = gene_keys xs"
proof (induction xs arbitrary: e)
  case Nil
  show ?case by simp
next
  case (Cons x xs)
  obtain r e1 where u: "uniform_real (- pw) pw e = (r, e1)"
    by (cases "uniform_real (- pw) pw e")
  obtain xs' e2 where p: "reset_all pw xs e1 = (xs', e2)"
    by (cases "reset_all pw xs e1")
  from Cons.IH [of e1] p have "gene_keys xs' = gene_keys xs"
    by simp
  with u p show ?case
    by (simp add: gene_keys_def)
qed

lemma gene_keys_remove:
  "gene_keys (take i xs @ drop (Suc i) xs) = take i (gene_keys xs) @ drop (Suc i) (gene_keys xs)"
  by (simp add: gene_keys_def take_map drop_map)

text \<open>The six operators that add no gene keep the known neurons, and keep the keys of the
  genes or erase one of them.\<close>

lemma weights_and_flags_keep_keys:
  assumes "apply_mutation op g n s = Some (ok, g', n', s')"
    and "op \<noteq> AddLink" and "op \<noteq> AddNeuron"
  shows "m_known_neuron_ids g' = m_known_neuron_ids g
         \<and> (gene_keys (m_genes g') = gene_keys (m_genes g)
            \<or> (\<exists>i. gene_keys (m_genes g')
                  = take i (gene_keys (m_genes g)) @ drop (Suc i) (gene_keys (m_genes g))))"
proof (cases op)
  case AllWeights
  with assms(1) gene_keys_perturb_all [of "weight_mutation_power (params n)" "m_genes g" "rand_engine n"]
  show ?thesis
    by (auto simp: with_static_def mutate_all_weights_def split: prod.splits)
next
  case OneWeight
  with assms(1) show ?thesis
    by (auto simp: with_static_def mutate_one_weight_def gene_keys_update
        split: prod.splits if_splits)
next
  case ResetWeights
  with assms(1) gene_keys_reset_all [of "initial_weight_perturbation (params n)" "m_genes g" "rand_engine n"]
  show ?thesis
    by (auto simp: with_static_def mutate_reset_weights_def split: prod.splits)
next
  case RemoveGene
  with assms(1) show ?thesis
    by (auto simp: with_static_def mutate_remove_gene_def gene_keys_remove
        split: prod.splits if_splits)
next
  case ReenableGene
  with assms(1) show ?thesis
    by (auto simp: with_static_def mutate_reenable_gene_def gene_keys_update Let_def
        split: prod.splits if_splits)
next
  case ToggleEnable
  with assms(1) show ?thesis
    by (auto simp: with_static_def mutate_toggle_enable_def gene_keys_update
        split: prod.splits if_splits)
qed (use assms in simp_all)


lemma sorted_wrt_remove:
  assumes "sorted_wrt P xs"
  shows "sorted_wrt P (take i xs @ drop (Suc i) xs)"
proof -
  from assms have "sorted_wrt P (take i xs @ drop i xs)"
    by simp
  then have parts: "sorted_wrt P (take i xs)"
    "\<forall>x\<in>set (take i xs). \<forall>y\<in>set (drop i xs). P x y"
    unfolding sorted_wrt_append by blast+
  have "set (drop (Suc i) xs) \<subseteq> set (drop i xs)"
    by (rule set_drop_subset_set_drop) simp
  moreover from assms have "sorted_wrt P (drop (Suc i) xs)"
    by (rule sorted_wrt_drop)
  ultimately show ?thesis
    using parts by (auto simp: sorted_wrt_append)
qed

lemma innov_sorted_snoc:
  "innov_sorted (xs @ [x]) \<longleftrightarrow> innov_sorted xs \<and> (\<forall>y\<in>set xs. innov_num y < innov_num x)"
  by (auto simp: innov_sorted_def sorted_wrt_append)

lemma endpoints_known_add_gene:
  assumes "endpoints_known g"
  shows "endpoints_known (add_gene x g)"
  using assms by (auto simp: endpoints_known_def add_gene_def Let_def list_all_iff)

lemma endpoints_known_disable:
  assumes "endpoints_known g"
  shows "endpoints_known (g\<lparr>m_genes := (m_genes g)[i := (m_genes g ! i)\<lparr>enabled := b\<rparr>]\<rparr>)"
  using assms by (simp add: endpoints_known_keys gene_keys_update)

lemma add_link_failed:
  assumes "mutate_add_link g n = Some (False, g', n')"
  shows "g' = g"
  using assms
  by (auto simp: mutate_add_link_def Let_def next_innovation_def
      split: if_splits prod.splits option.splits)

text \<open>The two ways in which \<open>mutate_add_neuron\<close> succeeds, and its failure.\<close>

lemma add_neuron_cases:
  assumes "mutate_add_neuron g n s = (ok, g', n', s')"
  obtains (failed) "\<not> ok" and "g' = g" and "n' = n"
    | (reuse) i x1 x2 where "ok"
      and "g' = add_gene x2 (add_gene x1
                 (g\<lparr>m_genes := (m_genes g)[i := (m_genes g ! i)\<lparr>enabled := False\<rparr>]\<rparr>))"
      and "n' = n"
    | (fresh) i x1 x2 where "ok"
      and "g' = add_gene x2 (add_gene x1
                 (g\<lparr>m_genes := (m_genes g)[i := (m_genes g ! i)\<lparr>enabled := False\<rparr>]\<rparr>))"
      and "innov_num x1 = m_next_innovation (innov_pool n)"
      and "innov_num x2 = Suc (m_next_innovation (innov_pool n))"
proof -
  obtain cs s1 where sh: "shuffle [0..<length (m_genes g)] s = (cs, s1)"
    by (cases "shuffle [0..<length (m_genes g)] s")
  show thesis
  proof (cases "find (\<lambda>idx. enabled (m_genes g ! idx)) cs")
    case None
    with assms sh have "\<not> ok" "g' = g" "n' = n"
      by (simp_all add: mutate_add_neuron_def)
    then show thesis by (rule failed)
  next
    case (Some i)
    let ?g1 = "g\<lparr>m_genes := (m_genes g)[i := (m_genes g ! i)\<lparr>enabled := False\<rparr>]\<rparr>"
    let ?sel = "m_genes ?g1 ! i"
    show thesis
    proof (cases "find_innovation (innov_pool n) NEW_NEURON (from_id ?sel) (to_id ?sel)")
      case (Some ex)
      with assms sh \<open>find (\<lambda>idx. enabled (m_genes g ! idx)) cs = Some i\<close>
      have "ok" and "g' = add_gene (mk_gene (i_innov_num_2 ex) (i_new_neuron_id ex) (i_to ex)
                                      (weight ?sel))
                            (add_gene (mk_gene (i_innov_num ex) (i_from ex) (i_new_neuron_id ex)
                                      (weight ?sel)) ?g1)"
        and "n' = n"
        by (simp_all add: mutate_add_neuron_def Let_def)
      then show thesis by (rule reuse)
    next
      case None
      let ?c = "m_next_innovation (innov_pool n)" and ?h = "m_next_hidden_neuron_id (innov_pool n)"
      from None assms sh \<open>find (\<lambda>idx. enabled (m_genes g ! idx)) cs = Some i\<close>
      have "ok" and "g' = add_gene (mk_gene (Suc ?c) ?h (to_id ?sel) (weight ?sel))
                            (add_gene (mk_gene ?c (from_id ?sel) ?h (weight ?sel)) ?g1)"
        by (simp_all add: mutate_add_neuron_def Let_def next_hidden_neuron_id_def
            next_innovation_def)
      moreover have "innov_num (mk_gene ?c (from_id ?sel) ?h (weight ?sel)) = ?c"
        "innov_num (mk_gene (Suc ?c) ?h (to_id ?sel) (weight ?sel)) = Suc ?c"
        by (simp_all add: mk_gene_def)
      ultimately show thesis by (rule fresh)
    qed
  qed
qed


text \<open>The two invariants, operator by operator.\<close>

lemma endpoints_preserved:
  assumes "apply_mutation op g n s = Some (ok, g', n', s')" and "endpoints_known g"
  shows "endpoints_known g'"
proof (cases "op = AddLink \<or> op = AddNeuron")
  case False
  with weights_and_flags_keep_keys [OF assms(1)]
  have known: "m_known_neuron_ids g' = m_known_neuron_ids g"
    and keys: "gene_keys (m_genes g') = gene_keys (m_genes g)
            \<or> (\<exists>i. gene_keys (m_genes g')
                  = take i (gene_keys (m_genes g)) @ drop (Suc i) (gene_keys (m_genes g)))"
    by simp_all
  have "set (gene_keys (m_genes g')) \<subseteq> set (gene_keys (m_genes g))"
    using keys by (auto dest: in_set_takeD in_set_dropD)
  with assms(2) known show ?thesis
    by (auto simp: endpoints_known_keys)
next
  case True
  then show ?thesis
  proof
    assume op: "op = AddLink"
    with assms(1) have al: "mutate_add_link g n = Some (ok, g', n')"
      by (auto simp: with_static_def split: prod.splits)
    show ?thesis
    proof (cases ok)
      case False
      with al have "mutate_add_link g n = Some (False, g', n')" by simp
      then have "g' = g" by (rule add_link_failed)
      with assms(2) show ?thesis by simp
    next
      case True
      with al have "mutate_add_link g n = Some (True, g', n')" by simp
      then show ?thesis
        by (cases rule: add_link_cases) (simp_all add: endpoints_known_add_gene assms(2))
    qed
  next
    assume op: "op = AddNeuron"
    with assms(1) have "mutate_add_neuron g n s = (ok, g', n', s')"
      by simp
    then show ?thesis
      by (cases rule: add_neuron_cases)
        (simp_all add: assms(2) endpoints_known_add_gene endpoints_known_disable)
  qed
qed

lemma sorted_preserved:
  assumes "apply_mutation op g n s = Some (ok, g', n', s')" and "innov_sorted (m_genes g)"
    and "(op = AddLink \<or> op = AddNeuron) \<and> ok \<longrightarrow>
           below_counter g (innov_pool n)
           \<and> m_next_innovation (innov_pool n) < m_next_innovation (innov_pool n')"
  shows "innov_sorted (m_genes g')"
proof (cases "op = AddLink \<or> op = AddNeuron")
  case False
  with weights_and_flags_keep_keys [OF assms(1)]
  have keys: "gene_keys (m_genes g') = gene_keys (m_genes g)
            \<or> (\<exists>i. gene_keys (m_genes g')
                  = take i (gene_keys (m_genes g)) @ drop (Suc i) (gene_keys (m_genes g)))"
    by simp
  from assms(2) have "sorted_wrt (<) (map fst (gene_keys (m_genes g)))"
    by (simp add: innov_sorted_keys)
  from this sorted_wrt_remove [OF this] keys show ?thesis
    by (auto simp: innov_sorted_keys take_map drop_map)
next
  case True
  then show ?thesis
  proof
    assume op: "op = AddLink"
    with assms(1) have al: "mutate_add_link g n = Some (ok, g', n')"
      by (auto simp: with_static_def split: prod.splits)
    show ?thesis
    proof (cases ok)
      case False
      with al have "mutate_add_link g n = Some (False, g', n')" by simp
      then have "g' = g" by (rule add_link_failed)
      with assms(2) show ?thesis by simp
    next
      case True
      with op assms(3) have bc: "below_counter g (innov_pool n)"
        and adv: "m_next_innovation (innov_pool n) < m_next_innovation (innov_pool n')"
        by simp_all
      from al True have "mutate_add_link g n = Some (True, g', n')" by simp
      then show ?thesis
      proof (cases rule: add_link_cases)
        case (reuse f t c w)
        with adv show ?thesis by simp
      next
        case (fresh f t w)
        with bc assms(2) show ?thesis
          by (auto simp: add_gene_genes innov_sorted_snoc below_counter_def list_all_iff
              mk_gene_def)
      qed
    qed
  next
    assume op: "op = AddNeuron"
    with assms(1) have "mutate_add_neuron g n s = (ok, g', n', s')"
      by simp
    then show ?thesis
    proof (cases rule: add_neuron_cases)
      case failed
      with assms(2) show ?thesis by simp
    next
      case (reuse i x1 x2)
      with op assms(3) show ?thesis by simp
    next
      case (fresh i x1 x2)
      from fresh(1) op assms(3) have bc: "below_counter g (innov_pool n)"
        by simp
      let ?xs = "(m_genes g)[i := (m_genes g ! i)\<lparr>enabled := False\<rparr>]"
      have k: "gene_keys ?xs = gene_keys (m_genes g)"
        by (simp add: gene_keys_update)
      with assms(2) have s1: "innov_sorted ?xs"
        by (simp add: innov_sorted_keys)
      have "innov_num ` set ?xs = innov_num ` set (m_genes g)"
      proof -
        have "map fst (gene_keys ?xs) = map fst (gene_keys (m_genes g))"
          using k by simp
        then have "map innov_num ?xs = map innov_num (m_genes g)"
          by (simp add: gene_keys_def comp_def)
        then have "set (map innov_num ?xs) = set (map innov_num (m_genes g))"
          by simp
        then show ?thesis by simp
      qed
      moreover from bc
      have "\<forall>v\<in>innov_num ` set (m_genes g). v < m_next_innovation (innov_pool n)"
        by (auto simp: below_counter_def list_all_iff)
      ultimately have "\<forall>y\<in>set ?xs. innov_num y < m_next_innovation (innov_pool n)"
        by (metis imageI)
      with s1 fresh show ?thesis
        by (fastforce simp: add_gene_genes innov_sorted_def sorted_wrt_append)
    qed
  qed
qed

text \<open>
  What the operators keep: after any of the eight mutation operators the known neurons
  still contain the end points of every gene. The order of the gene list is kept by the
  six operators that add no gene, by a failed \<open>add_link\<close> or \<open>add_neuron\<close>, and by an
  \<open>add_link\<close> or \<open>add_neuron\<close> that takes fresh innovation numbers from a pool whose
  counter is above every innovation number of the genome.
\<close>

lemma structure_kept_without_reuse:
  "apply_mutation op g n s = Some (ok, g', n', s') \<longrightarrow>
     (endpoints_known g \<longrightarrow> endpoints_known g')
     \<and> (innov_sorted (m_genes g)
        \<and> ((op = AddLink \<or> op = AddNeuron) \<and> ok \<longrightarrow>
              below_counter g (innov_pool n)
              \<and> m_next_innovation (innov_pool n) < m_next_innovation (innov_pool n'))
        \<longrightarrow> innov_sorted (m_genes g'))"
  using endpoints_preserved sorted_preserved by blast


text \<open>The split of \<open>split_genome\<close>, which takes the fresh innovation numbers 2 and 3.\<close>

lemma split_eval:
  "mutate_add_neuron split_genome split_neat zero_engine
   = (True, split_genome_after, split_neat_after, zero_engine\<lparr>pos := 2\<rparr>)"
  by (simp add: mutate_add_neuron_def split_genome_def split_neat_def zero_engine_def
      uniform_int_def upt_rec mk_gene_def find_innovation_def next_hidden_neuron_id_def
      next_innovation_def register_gene_def register_innovation_def find_gene_def
      new_neuron_innovation_def add_gene_def Let_def split_genome_after_def
      split_neat_after_def)

lemma structure_kept_by_split:
  "apply_mutation AddNeuron split_genome split_neat zero_engine
     = Some (True, split_genome_after, split_neat_after, zero_engine\<lparr>pos := 2\<rparr>)
   \<and> endpoints_known split_genome \<and> innov_sorted (m_genes split_genome)
   \<and> below_counter split_genome (innov_pool split_neat)
   \<and> m_next_innovation (innov_pool split_neat) < m_next_innovation (innov_pool split_neat_after)
   \<and> endpoints_known split_genome_after \<and> innov_sorted (m_genes split_genome_after)"
proof -
  have run: "apply_mutation AddNeuron split_genome split_neat zero_engine
     = Some (True, split_genome_after, split_neat_after, zero_engine\<lparr>pos := 2\<rparr>)"
    by (simp add: split_eval)
  have before: "endpoints_known split_genome" "innov_sorted (m_genes split_genome)"
    "below_counter split_genome (innov_pool split_neat)"
    "m_next_innovation (innov_pool split_neat) < m_next_innovation (innov_pool split_neat_after)"
    by (simp_all add: endpoints_known_def innov_sorted_def below_counter_def split_genome_def
        split_neat_def split_neat_after_def mk_gene_def)
  from structure_kept_without_reuse [of AddNeuron split_genome split_neat zero_engine True
      split_genome_after split_neat_after "zero_engine\<lparr>pos := 2\<rparr>"] run before
  have "endpoints_known split_genome_after \<and> innov_sorted (m_genes split_genome_after)"
    by blast
  with run before show ?thesis by blast
qed

lemma reuse_eval:
  "map_option (\<lambda>(ok, g', n', s'). (ok, map innov_num (m_genes g')))
     (apply_mutation AddLink reuse_genome reuse_neat zero_engine) = Some (True, [0, 3, 4, 2])"
  by (simp add: with_static_def mutate_add_link_def reuse_genome_def reuse_neat_def
      unit_params_def uniform_int_def uniform_real_def link_exists_def mk_gene_def
      find_gene_def add_gene_def Let_def)

text \<open>The merge walk of \<open>distance_to\<close> on a gene list in that order: two genomes with the
  same five innovation numbers and the same weights are at the distance 2/5.\<close>

lemma unsorted_distance:
  "distance_to unit_params (scenario_genome 1 [0, 3, 4, 2, 5])
     (scenario_genome 1 [0, 2, 3, 4, 5]) = Fin (2 / 5)"
  by (simp add: distance_to_def distance_counters_def scenario_genome_def genes_of_def
      mk_gene_def unit_params_def)

text \<open>
  C3, evaluated where the code leaves the claim: \<open>reuse_genome\<close> is sorted, with the
  innovation numbers 0, 3 and 4, and its known neurons contain every end point.
  \<open>add_link\<close> draws the edge \<open>(1, 2)\<close>, finds the canonical gene of innovation number 2 in
  the pool and appends it: the mutation succeeds and the gene list \<open>0, 3, 4, 2\<close> is no longer
  sorted by innovation number. The known neurons still contain every end point.
\<close>

theorem add_link_breaks_gene_order:
  "endpoints_known reuse_genome \<and> innov_sorted (m_genes reuse_genome)
   \<and> (case apply_mutation AddLink reuse_genome reuse_neat zero_engine of
         None \<Rightarrow> False
       | Some (ok, g', n', s') \<Rightarrow>
           ok \<and> map innov_num (m_genes g') = [0, 3, 4, 2] \<and> \<not> innov_sorted (m_genes g')
           \<and> endpoints_known g')"
proof -
  have before: "endpoints_known reuse_genome" "innov_sorted (m_genes reuse_genome)"
    by (simp_all add: endpoints_known_def innov_sorted_def reuse_genome_def mk_gene_def)
  from reuse_eval obtain g' n' s' where
    r: "apply_mutation AddLink reuse_genome reuse_neat zero_engine = Some (True, g', n', s')"
    and m: "map innov_num (m_genes g') = [0, 3, 4, 2]"
    by auto
  from m have "\<not> innov_sorted (m_genes g')"
    by (simp add: innov_sorted_def)
  moreover from r before(1) have "endpoints_known g'"
    by (rule endpoints_preserved)
  ultimately show ?thesis
    using before m by (simp add: r del: apply_mutation.simps)
qed

section \<open>The generators behind the mutations\<close>

text \<open>\<open>mutate_add_neuron\<close> shuffles with its static generator and leaves the generator of
  the driver alone; the other seven operators never see the static generator.\<close>

lemma add_neuron_keeps_driver_generator:
  "rand_engine (fst (snd (snd (mutate_add_neuron g n s)))) = rand_engine n"
proof -
  obtain ok g' n' s' where r: "mutate_add_neuron g n s = (ok, g', n', s')"
    by (cases "mutate_add_neuron g n s")
  then have "rand_engine n' = rand_engine n"
    by (auto simp: mutate_add_neuron_def Let_def split: prod.splits option.splits)
  with r show ?thesis by simp
qed

lemma other_operators_ignore_static_generator:
  assumes "op \<noteq> AddNeuron"
  shows "map_option (\<lambda>(ok, g', n', s'). (ok, g', n', s' = s1)) (apply_mutation op g n s1)
       = map_option (\<lambda>(ok, g', n', s'). (ok, g', n', s' = s2)) (apply_mutation op g n s2)"
  using assms
  by (cases op) (auto simp: with_static_def option.map_comp comp_def split: prod.splits
      intro!: option.map_cong)

text \<open>
  C6, evaluated where the code leaves the claim: two calls of \<open>mutate_add_neuron\<close> on the
  same genome, with the same parameters, pool and driver-owned generator, which differ in
  the state of the function's static generator only, disable different genes; neither
  takes a draw from the generator of the driver.
\<close>

theorem add_neuron_static_generator:
  "map enabled (m_genes (fst (snd (mutate_add_neuron twin_genome retry_neat zero_engine))))
     = [False, True, True, True]
   \<and> map enabled (m_genes (fst (snd (mutate_add_neuron twin_genome retry_neat one_engine))))
     = [True, False, True, True]
   \<and> rand_engine (fst (snd (snd (mutate_add_neuron twin_genome retry_neat zero_engine))))
     = rand_engine retry_neat
   \<and> rand_engine (fst (snd (snd (mutate_add_neuron twin_genome retry_neat one_engine))))
     = rand_engine retry_neat"
proof -
  have "map enabled (m_genes (fst (snd (mutate_add_neuron twin_genome retry_neat zero_engine))))
     = [False, True, True, True]"
    by (simp add: mutate_add_neuron_def twin_genome_def retry_neat_def zero_engine_def
      uniform_int_def upt_rec mk_gene_def find_innovation_def next_hidden_neuron_id_def
      next_innovation_def add_gene_def Let_def)
  moreover
  have "map enabled (m_genes (fst (snd (mutate_add_neuron twin_genome retry_neat one_engine))))
     = [True, False, True, True]"
    by (simp add: mutate_add_neuron_def twin_genome_def retry_neat_def one_engine_def
      uniform_int_def upt_rec mk_gene_def find_innovation_def next_hidden_neuron_id_def
      next_innovation_def add_gene_def Let_def)
  ultimately show ?thesis
    by (simp add: add_neuron_keeps_driver_generator)
qed

end
